theory Spec2Isabelle
  imports
    Main
    "HOL-Library.Char_ord"
    "HOL-Library.List_Lexorder"
    "HOL-Library.Multiset"
begin

section \<open>img-duplicates: the helpers of \<open>src/utils.ts\<close>\<close>

text \<open>
  JavaScript strings are modelled as \<^typ>\<open>string\<close>, byte buffers and number arrays as
  \<^typ>\<open>nat list\<close>. Everything the program gets from Node, sharp and static-kdtree is a
  field of the record \<open>env\<close> further down; a rejected promise or a thrown exception is
  a value of \<open>error\<close> on the left of a sum.
\<close>

datatype error =
    AssertionError
  | SharpError string
  | ReaddirError string
  | MetadataError string

subsection \<open>\<open>isImageFile\<close>\<close>

definition endsWith :: "string \<Rightarrow> string \<Rightarrow> bool" where
  "endsWith s suf \<longleftrightarrow>
     length suf \<le> length s \<and> drop (length s - length suf) s = suf"

definition isImageFile :: "string \<Rightarrow> bool" where
  "isImageFile p \<longleftrightarrow>
     endsWith p ''.png'' \<or> endsWith p ''.jpg'' \<or> endsWith p ''.jpeg'' \<or>
     endsWith p ''.webp'' \<or> endsWith p ''.gif'' \<or> endsWith p ''.avif'' \<or>
     endsWith p ''.tiff'' \<or> endsWith p ''.tif'' \<or> endsWith p ''.svg''"

subsection \<open>\<open>px\<close>\<close>

text \<open>\<open>assert(pixel < pixels.length)\<close> throws; the read itself is then in range.\<close>

definition px :: "nat list \<Rightarrow> nat \<Rightarrow> nat \<Rightarrow> nat \<Rightarrow> error + nat" where
  "px pixels width x y =
     (let pixel = width * y + x
      in if pixel < length pixels then Inr (pixels ! pixel) else Inl AssertionError)"

subsection \<open>\<open>binaryToHex\<close>\<close>

text \<open>
  \<open>parseInt(bytes, 2)\<close>: the value of the longest prefix of binary digits, \<open>NaN\<close>
  (here \<open>None\<close>) when that prefix is empty. Leading white space and a sign, which
  \<open>parseInt\<close> also accepts, are left out: \<open>dhash\<close> only ever builds its argument from the
  characters 0 and 1.
\<close>

definition isBinDigit :: "char \<Rightarrow> bool" where
  "isBinDigit c \<longleftrightarrow> c = CHR ''0'' \<or> c = CHR ''1''"

definition parseInt2 :: "string \<Rightarrow> nat option" where
  "parseInt2 bytes =
     (let ds = takeWhile isBinDigit bytes
      in if ds = [] then None
         else Some (foldl (\<lambda>a c. 2 * a + (if c = CHR ''1'' then 1 else 0)) 0 ds))"

definition hexDigit :: "nat \<Rightarrow> char" where
  "hexDigit d = ''0123456789abcdef'' ! d"

text \<open>\<open>decimal.toString(16)\<close>; \<open>NaN.toString(16)\<close> is the string NaN.\<close>

function toString16_nat :: "nat \<Rightarrow> string" where
  "toString16_nat d =
     (if d < 16 then [hexDigit d] else toString16_nat (d div 16) @ [hexDigit (d mod 16)])"
  by pat_completeness auto
termination
  by (relation "measure id") auto

declare toString16_nat.simps [simp del]

definition toString16 :: "nat option \<Rightarrow> string" where
  "toString16 decimal = (case decimal of None \<Rightarrow> ''NaN'' | Some d \<Rightarrow> toString16_nat d)"

text \<open>
  \<open>Buffer.from(output, "hex")\<close> decodes two hexadecimal digits per byte and stops at
  the first pair that is incomplete or holds a character that is no hexadecimal digit:
  a last digit without a partner is dropped.
\<close>

definition hexVal :: "char \<Rightarrow> nat option" where
  "hexVal c =
     (let n = (of_char c :: nat)
      in if 48 \<le> n \<and> n \<le> 57 then Some (n - 48)
         else if 97 \<le> n \<and> n \<le> 102 then Some (n - 87)
         else if 65 \<le> n \<and> n \<le> 70 then Some (n - 55)
         else None)"

fun Buffer_from_hex :: "string \<Rightarrow> nat list" where
  "Buffer_from_hex (a # b # rest) =
     (case (hexVal a, hexVal b) of
        (Some h, Some l) \<Rightarrow> (16 * h + l) # Buffer_from_hex rest
      | _ \<Rightarrow> [])"
| "Buffer_from_hex _ = []"

function binaryToHex_loop :: "string \<Rightarrow> nat \<Rightarrow> string \<Rightarrow> string" where
  "binaryToHex_loop s i output =
     (if i < length s
      then (let bytes = take 4 (drop i s);
                decimal = parseInt2 bytes;
                hex = toString16 decimal
            in binaryToHex_loop s (i + 4) (output @ hex))
      else output)"
  by pat_completeness auto
termination
  by (relation "measure (\<lambda>(s, i, output). length s - i)") auto

declare binaryToHex_loop.simps [simp del]

definition binaryToHex :: "string \<Rightarrow> nat list" where
  "binaryToHex s = Buffer_from_hex (binaryToHex_loop s 0 [])"

subsection \<open>\<open>dhash\<close>\<close>

text \<open>The inner loop over \<open>col\<close> and the outer loop over \<open>row\<close>; both run to \<open>height\<close>.\<close>

function dhash_cols ::
  "nat list \<Rightarrow> nat \<Rightarrow> nat \<Rightarrow> nat \<Rightarrow> nat \<Rightarrow> string \<Rightarrow> error + string" where
  "dhash_cols pixels width height row col difference =
     (if col < height
      then (case px pixels width col row of
              Inl e \<Rightarrow> Inl e
            | Inr left \<Rightarrow>
               (case px pixels width (col + 1) row of
                  Inl e \<Rightarrow> Inl e
                | Inr right \<Rightarrow>
                    dhash_cols pixels width height row (col + 1)
                      (difference @ (if left < right then ''1'' else ''0''))))
      else Inr difference)"
  by pat_completeness auto
termination
  by (relation "measure (\<lambda>(pixels, width, height, row, col, difference). height - col)") auto

declare dhash_cols.simps [simp del]

function dhash_rows ::
  "nat list \<Rightarrow> nat \<Rightarrow> nat \<Rightarrow> nat \<Rightarrow> string \<Rightarrow> error + string" where
  "dhash_rows pixels width height row difference =
     (if row < height
      then (case dhash_cols pixels width height row 0 difference of
              Inl e \<Rightarrow> Inl e
            | Inr difference' \<Rightarrow> dhash_rows pixels width height (row + 1) difference')
      else Inr difference)"
  by pat_completeness auto
termination
  by (relation "measure (\<lambda>(pixels, width, height, row, difference). height - row)") auto

declare dhash_rows.simps [simp del]

text \<open>
  The environment of one run. Each field is a call the program makes into Node, sharp
  or static-kdtree; \<open>None\<close> is a rejected promise or a thrown exception.
  \<^item> \<open>fs_access p\<close>: \<open>fs.access(p)\<close> resolves.
  \<^item> \<open>fs_stat_isDirectory p\<close>: \<open>(await fs.stat(p)).isDirectory()\<close>.
  \<^item> \<open>fs_readdir p\<close>: \<open>fs.readdir(p)\<close>.
  \<^item> \<open>sharp_raw p w h\<close>: \<open>sharp(p).grayscale().resize({w, h, fit: "fill"}).raw().toBuffer()\<close>.
  \<^item> \<open>sharp_metadata p\<close>: the \<open>width\<close> and \<open>height\<close> fields of \<open>sharp(p).metadata()\<close>,
    each of which may be undefined.
  \<^item> \<open>kdtree_knn i points q k d\<close>: what \<open>createKDTree(points).knn(q, k, d)\<close> answers to
    the query of round \<open>i\<close> of the grouping loop. static-kdtree does not fix the order
    among points at the same distance, and two queries with the same arguments may
    answer differently: the answers of one run are told apart by the round that asks.
  \<^item> \<open>localeCompare a b\<close>: \<open>a.localeCompare(b)\<close>.
  \<^item> \<open>path_join\<close>, \<open>path_basename\<close>: \<open>path.join\<close>, \<open>path.basename\<close>.
\<close>

record env =
  fs_access :: "string \<Rightarrow> bool"
  fs_stat_isDirectory :: "string \<Rightarrow> bool option"
  fs_readdir :: "string \<Rightarrow> string list option"
  sharp_raw :: "string \<Rightarrow> nat \<Rightarrow> nat \<Rightarrow> nat list option"
  sharp_metadata :: "string \<Rightarrow> (nat option \<times> nat option) option"
  kdtree_knn :: "nat \<Rightarrow> nat list list \<Rightarrow> nat list \<Rightarrow> nat \<Rightarrow> nat \<Rightarrow> nat list option"
  localeCompare :: "string \<Rightarrow> string \<Rightarrow> int"
  path_join :: "string \<Rightarrow> string \<Rightarrow> string"
  path_basename :: "string \<Rightarrow> string"

definition dhash :: "env \<Rightarrow> string \<Rightarrow> nat \<Rightarrow> error + nat list" where
  "dhash E p hashSize =
     (let height = hashSize; width = height + 1
      in case sharp_raw E p width height of
           None \<Rightarrow> Inl (SharpError p)
         | Some pixels \<Rightarrow>
            (case dhash_rows pixels width height 0 [] of
               Inl e \<Rightarrow> Inl e
             | Inr difference \<Rightarrow> Inr (binaryToHex difference)))"

subsection \<open>\<open>pathExists\<close>, \<open>isFolder\<close>, \<open>mapLimit\<close>\<close>

definition pathExists :: "env \<Rightarrow> string \<Rightarrow> bool" where
  "pathExists E filePath = fs_access E filePath"

definition isFolder :: "env \<Rightarrow> string \<Rightarrow> bool" where
  "isFolder E p = (case fs_stat_isDirectory E p of None \<Rightarrow> False | Some b \<Rightarrow> b)"

text \<open>
  \<open>Promise.all\<close> over the promises of one batch: the results in the order of the
  batch, or a rejection. With several rejections in one batch the first of the batch is
  taken; \<open>findDuplicateImages\<close> calls \<open>mapLimit\<close> with batches of one.
\<close>

fun Promise_all :: "(error + 'r) list \<Rightarrow> error + 'r list" where
  "Promise_all [] = Inr []"
| "Promise_all (x # xs) =
     (case x of
        Inl e \<Rightarrow> Inl e
      | Inr r \<Rightarrow> (case Promise_all xs of Inl e \<Rightarrow> Inl e | Inr rs \<Rightarrow> Inr (r # rs)))"

text \<open>
  The loop \<open>for (let i = 0; i < array.length; i += limit)\<close> does not end when \<open>limit\<close>
  is 0 and the array is not empty: \<open>None\<close> is a call that never returns.
  \<open>array.slice(i, i + limit)\<close> is \<open>take limit (drop i array)\<close>.
\<close>

partial_function (option) mapLimit_loop ::
  "'t list \<Rightarrow> nat \<Rightarrow> ('t \<Rightarrow> error + 'r) \<Rightarrow> nat \<Rightarrow> 'r list \<Rightarrow> (error + 'r list) option" where
  "mapLimit_loop array limit iteratee i results =
     (if i < length array
      then (case Promise_all (map iteratee (take limit (drop i array))) of
              Inl e \<Rightarrow> Some (Inl e)
            | Inr batchResults \<Rightarrow>
                mapLimit_loop array limit iteratee (i + limit) (results @ batchResults))
      else Some (Inr results))"

declare mapLimit_loop.simps [code]

definition mapLimit ::
  "'t list \<Rightarrow> nat \<Rightarrow> ('t \<Rightarrow> error + 'r) \<Rightarrow> (error + 'r list) option" where
  "mapLimit array limit iteratee = mapLimit_loop array limit iteratee 0 []"

section \<open>\<open>findDuplicateImages\<close>\<close>

subsection \<open>Collecting the image paths\<close>

text \<open>\<open>source: string | string[]\<close>.\<close>

datatype source = Directory string | Paths "string list"

text \<open>
  The loop \<open>for (const item of source)\<close> with its accumulator \<open>allImagePaths\<close>.
  \<open>Array.prototype.sort()\<close> without a comparator orders strings by their code units,
  here the order of \<^typ>\<open>string\<close>.
\<close>

fun allImagePaths_loop :: "env \<Rightarrow> string list \<Rightarrow> string list \<Rightarrow> string list" where
  "allImagePaths_loop E [] allImagePaths = allImagePaths"
| "allImagePaths_loop E (item # rest) allImagePaths =
     (if \<not> pathExists E item then allImagePaths_loop E rest allImagePaths
      else if isFolder E item then
        (case fs_readdir E item of
           None \<Rightarrow> allImagePaths_loop E rest allImagePaths
         | Some files \<Rightarrow>
             (let imageFiles = sort (filter isImageFile files);
                  imagePaths = map (path_join E item) imageFiles
              in allImagePaths_loop E rest (allImagePaths @ imagePaths)))
      else if isImageFile item then allImagePaths_loop E rest (allImagePaths @ [item])
      else allImagePaths_loop E rest allImagePaths)"

definition imageFilePaths_of :: "env \<Rightarrow> source \<Rightarrow> error + string list" where
  "imageFilePaths_of E src =
     (case src of
        Paths items \<Rightarrow> Inr (sort (allImagePaths_loop E items []))
      | Directory d \<Rightarrow>
          (case fs_readdir E d of
             None \<Rightarrow> Inl (ReaddirError d)
           | Some files \<Rightarrow>
               (let imageFiles = sort (filter isImageFile files)
                in Inr (map (path_join E d) imageFiles))))"

subsection \<open>Hashing\<close>

definition hashList_of :: "env \<Rightarrow> nat \<Rightarrow> string list \<Rightarrow> (error + nat list list) option" where
  "hashList_of E n imageFilePaths = mapLimit imageFilePaths 1 (\<lambda>file. dhash E file n)"

subsection \<open>Grouping\<close>

text \<open>\<open>imageFilePaths[i]\<close> is \<open>undefined\<close> (here \<open>None\<close>) out of range.\<close>

definition at_index :: "'a list \<Rightarrow> nat \<Rightarrow> 'a option" where
  "at_index xs i = (if i < length xs then Some (xs ! i) else None)"

text \<open>
  One round of the loop \<open>for (let i = 0; i < hashList.length; i++)\<close> on its state, the
  pair of \<open>duplicateIdxSet\<close> and \<open>duplicates\<close>. The parameters \<open>maxDup\<close> and \<open>maxDist\<close>
  are the options \<open>maxDuplicates\<close> and \<open>maxDistance\<close>.
\<close>

definition group_step ::
  "env \<Rightarrow> nat \<Rightarrow> nat \<Rightarrow> string list \<Rightarrow> nat list list \<Rightarrow> nat \<Rightarrow>
   nat set \<times> string option list list \<Rightarrow> nat set \<times> string option list list" where
  "group_step E maxDup maxDist imageFilePaths hashList i st =
     (let duplicateIdxSet = fst st; duplicates = snd st
      in if i \<in> duplicateIdxSet then st
         else
           (let hash = hashList ! i
            in case kdtree_knn E i hashList hash (maxDup + 1) maxDist of
                 None \<Rightarrow> st
               | Some duplicatesIdx \<Rightarrow>
                   if length duplicatesIdx > 1 then
                     (let duplicatesIdx' = filter (\<lambda>idx. idx \<notin> duplicateIdxSet) duplicatesIdx
                      in if length duplicatesIdx' > 1 then
                           (let limitedDuplicates = take maxDup duplicatesIdx';
                                dups = map (at_index imageFilePaths) limitedDuplicates
                            in (duplicateIdxSet \<union> set limitedDuplicates, duplicates @ [dups]))
                         else st)
                   else st))"

function group_loop ::
  "env \<Rightarrow> nat \<Rightarrow> nat \<Rightarrow> string list \<Rightarrow> nat list list \<Rightarrow> nat \<Rightarrow>
   nat set \<times> string option list list \<Rightarrow> nat set \<times> string option list list" where
  "group_loop E maxDup maxDist imageFilePaths hashList i st =
     (if i < length hashList
      then group_loop E maxDup maxDist imageFilePaths hashList (i + 1)
             (group_step E maxDup maxDist imageFilePaths hashList i st)
      else st)"
  by pat_completeness auto
termination
  by (relation "measure (\<lambda>(E, maxDup, maxDist, imageFilePaths, hashList, i, st). length hashList - i)")
     auto

declare group_loop.simps [simp del]

definition duplicates_of ::
  "env \<Rightarrow> nat \<Rightarrow> nat \<Rightarrow> string list \<Rightarrow> nat list list \<Rightarrow> string option list list" where
  "duplicates_of E maxDup maxDist imageFilePaths hashList =
     snd (group_loop E maxDup maxDist imageFilePaths hashList 0 ({}, []))"

subsection \<open>Metadata and sorting\<close>

record image =
  path :: string
  width :: nat
  height :: nat

text \<open>
  The loop \<open>for (const file of files)\<close>. \<open>pathExists(undefined)\<close> is false: \<open>fs.access\<close>
  rejects and \<open>pathExists\<close> catches. \<open>metadata.width || 0\<close> is 0 for an undefined width.
\<close>

fun filesWithMetadata_loop :: "env \<Rightarrow> string option list \<Rightarrow> image list \<Rightarrow> error + image list" where
  "filesWithMetadata_loop E [] filesWithMetadata = Inr filesWithMetadata"
| "filesWithMetadata_loop E (None # files) filesWithMetadata =
     filesWithMetadata_loop E files filesWithMetadata"
| "filesWithMetadata_loop E (Some file # files) filesWithMetadata =
     (if pathExists E file then
        (case sharp_metadata E file of
           None \<Rightarrow> Inl (MetadataError file)
         | Some (w, h) \<Rightarrow>
             filesWithMetadata_loop E files
               (filesWithMetadata @
                [\<lparr>path = file,
                  width = (case w of None \<Rightarrow> 0 | Some v \<Rightarrow> v),
                  height = (case h of None \<Rightarrow> 0 | Some v \<Rightarrow> v)\<rparr>]))
      else filesWithMetadata_loop E files filesWithMetadata)"

text \<open>The comparator handed to \<open>filesWithMetadata.sort\<close>.\<close>

definition compareImages :: "env \<Rightarrow> image \<Rightarrow> image \<Rightarrow> int" where
  "compareImages E a b =
     (let resolutionDiff = int (width b * height b) - int (width a * height a)
      in if resolutionDiff \<noteq> 0 then resolutionDiff
         else localeCompare E (path_basename E (path a)) (path_basename E (path b)))"

text \<open>
  \<open>Array.prototype.sort(compareFn)\<close> is stable: an element moves in front of another
  only when the comparator says so. This is insertion from the right, which puts an
  element before the first later one it does not compare greater than.
\<close>

fun insert_by :: "('a \<Rightarrow> 'a \<Rightarrow> int) \<Rightarrow> 'a \<Rightarrow> 'a list \<Rightarrow> 'a list" where
  "insert_by cmp x [] = [x]"
| "insert_by cmp x (y # ys) = (if cmp x y \<le> 0 then x # y # ys else y # insert_by cmp x ys)"

definition Array_sort :: "('a \<Rightarrow> 'a \<Rightarrow> int) \<Rightarrow> 'a list \<Rightarrow> 'a list" where
  "Array_sort cmp xs = foldr (insert_by cmp) xs []"

text \<open>The loop \<open>for (const files of duplicates)\<close> with \<open>duplicatesWithMetadata\<close>.\<close>

fun duplicatesWithMetadata_loop ::
  "env \<Rightarrow> string option list list \<Rightarrow> image list list \<Rightarrow> error + image list list" where
  "duplicatesWithMetadata_loop E [] duplicatesWithMetadata = Inr duplicatesWithMetadata"
| "duplicatesWithMetadata_loop E (files # rest) duplicatesWithMetadata =
     (case filesWithMetadata_loop E files [] of
        Inl e \<Rightarrow> Inl e
      | Inr filesWithMetadata \<Rightarrow>
          (let sorted = Array_sort (compareImages E) filesWithMetadata
           in if length sorted > 0
              then duplicatesWithMetadata_loop E rest (duplicatesWithMetadata @ [sorted])
              else duplicatesWithMetadata_loop E rest duplicatesWithMetadata))"

subsection \<open>The entry point\<close>

record options =
  hashSize :: nat
  maxDuplicates :: nat
  maxDistance :: nat

definition defaultOptions :: options where
  "defaultOptions = \<lparr>hashSize = 8, maxDuplicates = 100, maxDistance = 5\<rparr>"

text \<open>\<open>None\<close> is a call that does not return, \<open>Some (Inl e)\<close> a rejected promise.\<close>

definition findDuplicateImages ::
  "env \<Rightarrow> source \<Rightarrow> options \<Rightarrow> (error + image list list) option" where
  "findDuplicateImages E src opts =
     (case imageFilePaths_of E src of
        Inl e \<Rightarrow> Some (Inl e)
      | Inr imageFilePaths \<Rightarrow>
          (case hashList_of E (hashSize opts) imageFilePaths of
             None \<Rightarrow> None
           | Some (Inl e) \<Rightarrow> Some (Inl e)
           | Some (Inr hashList) \<Rightarrow>
               Some (duplicatesWithMetadata_loop E
                 (duplicates_of E (maxDuplicates opts) (maxDistance opts) imageFilePaths hashList)
                 [])))"

section \<open>Specification-side definitions\<close>

subsection \<open>Closed forms of the loops\<close>

text \<open>The bit \<open>dhash\<close> emits for the pixel at column \<open>c\<close> of row \<open>r\<close> of a \<open>w\<close>-wide grid.\<close>

definition dbit :: "nat list \<Rightarrow> nat \<Rightarrow> nat \<Rightarrow> nat \<Rightarrow> char" where
  "dbit pixels w r c =
     (if pixels ! (w * r + c) < pixels ! (w * r + c + 1) then CHR ''1'' else CHR ''0'')"

text \<open>The hexadecimal string \<open>binaryToHex\<close> builds, four characters of input at a time.\<close>

function hexOf :: "string \<Rightarrow> string" where
  "hexOf s = (if s = [] then [] else toString16 (parseInt2 (take 4 s)) @ hexOf (drop 4 s))"
  by pat_completeness auto
termination
  by (relation "measure length") auto

declare hexOf.simps [simp del]

definition isHex :: "char \<Rightarrow> bool" where
  "isHex c \<longleftrightarrow> hexVal c \<noteq> None"

text \<open>
  The decoder of a fingerprint: every byte gives back its two nibbles, every nibble
  its four binary digits, most significant first.
\<close>

definition bitChar :: "nat \<Rightarrow> char" where
  "bitChar b = (if b = 1 then CHR ''1'' else CHR ''0'')"

definition nibbleToBinary :: "nat \<Rightarrow> string" where
  "nibbleToBinary v =
     [bitChar (v div 8 mod 2), bitChar (v div 4 mod 2), bitChar (v div 2 mod 2), bitChar (v mod 2)]"

definition bufferToBinary :: "nat list \<Rightarrow> string" where
  "bufferToBinary bytes =
     concat (map (\<lambda>b. nibbleToBinary (b div 16) @ nibbleToBinary (b mod 16)) bytes)"

text \<open>
  The value of a binary digit, and the byte whose binary digits, most significant
  first, are the bits \<open>8 * k\<close> to \<open>8 * k + 7\<close> of a bit string.
\<close>

definition bitVal :: "char \<Rightarrow> nat" where
  "bitVal c = (if c = CHR ''1'' then 1 else 0)"

definition byteAt :: "string \<Rightarrow> nat \<Rightarrow> nat" where
  "byteAt bits k =
     128 * bitVal (bits ! (8 * k)) + 64 * bitVal (bits ! (8 * k + 1)) +
     32 * bitVal (bits ! (8 * k + 2)) + 16 * bitVal (bits ! (8 * k + 3)) +
     8 * bitVal (bits ! (8 * k + 4)) + 4 * bitVal (bits ! (8 * k + 5)) +
     2 * bitVal (bits ! (8 * k + 6)) + bitVal (bits ! (8 * k + 7))"

text \<open>The entries of a group that are not \<open>undefined\<close>.\<close>

definition present :: "'a option list \<Rightarrow> 'a list" where
  "present g = concat (map (\<lambda>x. case x of None \<Rightarrow> [] | Some f \<Rightarrow> [f]) g)"

text \<open>
  The invariant of the grouping loop for a path list without repetition: the paths of
  the groups emitted so far are pairwise different, and each of them stands at a
  claimed position.
\<close>

definition group_inv :: "string list \<Rightarrow> nat set \<times> string option list list \<Rightarrow> bool" where
  "group_inv ps st \<longleftrightarrow>
     distinct (concat (map present (snd st))) \<and>
     (\<forall>f\<in>set (concat (map present (snd st))). \<exists>i\<in>fst st. i < length ps \<and> ps ! i = f)"

text \<open>What one item of the source array adds to \<open>allImagePaths\<close>.\<close>

definition item_paths :: "env \<Rightarrow> string \<Rightarrow> string list" where
  "item_paths E item =
     (if \<not> pathExists E item then []
      else if isFolder E item then
        (case fs_readdir E item of
           None \<Rightarrow> []
         | Some files \<Rightarrow> map (path_join E item) (sort (filter isImageFile files)))
      else if isImageFile item then [item]
      else [])"

text \<open>A path that does not exist, or an existing file that is no image.\<close>

definition excluded :: "env \<Rightarrow> string \<Rightarrow> bool" where
  "excluded E p \<longleftrightarrow> \<not> pathExists E p \<or> (\<not> isFolder E p \<and> \<not> isImageFile p)"

text \<open>An existing directory whose listing holds no image file.\<close>

definition imageless_folder :: "env \<Rightarrow> string \<Rightarrow> bool" where
  "imageless_folder E p \<longleftrightarrow>
     pathExists E p \<and> isFolder E p \<and>
     (case fs_readdir E p of None \<Rightarrow> False | Some files \<Rightarrow> filter isImageFile files = [])"

subsection \<open>Example environments\<close>

text \<open>
  Modelled from the spec: static-kdtree is a dependency whose code is not part of the
  repository. Section 4.2 of the specification describes the query: the positions of up
  to \<open>k\<close> points whose distance to the query is at most \<open>d\<close>, by increasing distance;
  the distance is numeric over the byte coordinates (Euclidean here). The order among
  points at the same distance is left open there: \<open>knn_spec\<close> takes them by ascending
  position, \<open>knn_spec_desc\<close> by descending position. These instances are used for
  concrete runs only; the general theorems hold for any \<open>kdtree_knn\<close>.
\<close>

definition dist2 :: "nat list \<Rightarrow> nat list \<Rightarrow> int" where
  "dist2 a b = sum_list (map (\<lambda>(x, y). (int x - int y) * (int x - int y)) (zip a b))"

text \<open>
  Modelled from the spec: the query of section 4.2, points at the same distance taken
  by ascending position.
\<close>

definition knn_spec :: "nat list list \<Rightarrow> nat list \<Rightarrow> nat \<Rightarrow> nat \<Rightarrow> nat list option" where
  "knn_spec points q k d =
     Some (take k
       (filter (\<lambda>i. dist2 (points ! i) q \<le> int d * int d)
         (sort_key (\<lambda>i. dist2 (points ! i) q) [0..<length points])))"

text \<open>
  Modelled from the spec: the same query, points at the same distance taken by
  descending position.
\<close>

definition knn_spec_desc :: "nat list list \<Rightarrow> nat list \<Rightarrow> nat \<Rightarrow> nat \<Rightarrow> nat list option" where
  "knn_spec_desc points q k d =
     Some (take k
       (filter (\<lambda>i. dist2 (points ! i) q \<le> int d * int d)
         (sort_key (\<lambda>i. dist2 (points ! i) q) (rev [0..<length points]))))"

text \<open>
  A collation for the concrete runs that agrees with \<open>localeCompare\<close> of the ICU root
  locale on ASCII letters: letters are compared without regard to case first, and
  only when that finds no difference the lower-case letter goes first.
\<close>

definition toLowerASCII :: "char \<Rightarrow> char" where
  "toLowerASCII c =
     (let n = (of_char c :: nat) in if 65 \<le> n \<and> n \<le> 90 then char_of (n + 32) else c)"

definition localeCompare_letters :: "string \<Rightarrow> string \<Rightarrow> int" where
  "localeCompare_letters a b =
     (let la = map toLowerASCII a; lb = map toLowerASCII b
      in if la < lb then - 1 else if lb < la then 1
         else if a = b then 0 else if b < a then - 1 else 1)"

text \<open>\<open>path.basename\<close> and \<open>path.join\<close> on POSIX, for paths that need no normalising.\<close>

definition basename_posix :: "string \<Rightarrow> string" where
  "basename_posix p =
     rev (takeWhile (\<lambda>c. c \<noteq> CHR ''/'') (dropWhile (\<lambda>c. c = CHR ''/'') (rev p)))"

definition join_posix :: "string \<Rightarrow> string \<Rightarrow> string" where
  "join_posix d f = d @ ''/'' @ f"

text \<open>
  Two pictures: stripes (alternating dark and bright pixels) and a gradient that gets
  darker from pixel to pixel.
\<close>

definition stripes :: "nat \<Rightarrow> nat \<Rightarrow> nat list" where
  "stripes w h = map (\<lambda>k. k mod 2) [0..<w * h]"

definition gradient :: "nat \<Rightarrow> nat \<Rightarrow> nat list" where
  "gradient w h = map (\<lambda>k. w * h - k) [0..<w * h]"

text \<open>
  A directory \<open>dir\<close> with the stripes twice (\<open>a.png\<close> 100 by 100, \<open>b.png\<close> 98 by 99),
  the gradient (\<open>c.png\<close>) and a text file.
\<close>

definition example_env :: env where
  "example_env =
     \<lparr>fs_access =
        (\<lambda>p. p \<in> set [''dir'', ''dir/a.png'', ''dir/b.png'', ''dir/c.png'', ''dir/notes.txt'']),
      fs_stat_isDirectory =
        (\<lambda>p. if p = ''dir'' then Some True
             else if p \<in> set [''dir/a.png'', ''dir/b.png'', ''dir/c.png'', ''dir/notes.txt'']
             then Some False else None),
      fs_readdir =
        (\<lambda>p. if p = ''dir'' then Some [''c.png'', ''notes.txt'', ''b.png'', ''a.png''] else None),
      sharp_raw =
        (\<lambda>p w h. if p = ''dir/a.png'' \<or> p = ''dir/b.png'' then Some (stripes w h)
               else if p = ''dir/c.png'' then Some (gradient w h) else None),
      sharp_metadata =
        (\<lambda>p. if p = ''dir/a.png'' then Some (Some 100, Some 100)
             else if p = ''dir/b.png'' then Some (Some 98, Some 99)
             else if p = ''dir/c.png'' then Some (Some 50, Some 50) else None),
      kdtree_knn = (\<lambda>i. knn_spec),
      localeCompare = localeCompare_letters,
      path_join = join_posix,
      path_basename = basename_posix\<rparr>"

text \<open>
  An environment in which every path is an existing regular file that decodes to the
  stripes and is 10 by 10 pixels large.
\<close>

definition uniform_env :: env where
  "uniform_env =
     \<lparr>fs_access = (\<lambda>p. True),
      fs_stat_isDirectory = (\<lambda>p. Some False),
      fs_readdir = (\<lambda>p. None),
      sharp_raw = (\<lambda>p w h. Some (stripes w h)),
      sharp_metadata = (\<lambda>p. Some (Some 10, Some 10)),
      kdtree_knn = (\<lambda>i. knn_spec),
      localeCompare = localeCompare_letters,
      path_join = join_posix,
      path_basename = basename_posix\<rparr>"

text \<open>The example directory, with the metadata of \<open>b.png\<close> unreadable.\<close>

definition broken_metadata_env :: env where
  "broken_metadata_env =
     example_env\<lparr>sharp_metadata :=
       (\<lambda>p. if p = ''dir/a.png'' then Some (Some 100, Some 100) else None)\<rparr>"

text \<open>The example directory with nothing but the text file listed.\<close>

definition notes_only_env :: env where
  "notes_only_env =
     example_env\<lparr>fs_readdir := (\<lambda>p. if p = ''dir'' then Some [''notes.txt''] else None)\<rparr>"

section \<open>Properties\<close>

subsection \<open>The difference hash\<close>

lemma dhash_cols_run:
  "w * row + h < length pixels \<Longrightarrow> col \<le> h \<Longrightarrow>
   dhash_cols pixels w h row col d =
     Inr (d @ map (dbit pixels w row) [col..<h])"
proof (induction pixels w h row col d rule: dhash_cols.induct)
  case (1 pixels w h row col d)
  show ?case
  proof (cases "col < h")
    case True
    have l: "px pixels w col row = Inr (pixels ! (w * row + col))"
      using True "1.prems" by (simp add: px_def)
    have r: "px pixels w (col + 1) row = Inr (pixels ! (w * row + col + 1))"
      using True "1.prems" by (simp add: px_def add.assoc)
    have step: "dhash_cols pixels w h row (col + 1)
                  (d @ (if pixels ! (w * row + col) < pixels ! (w * row + col + 1) then ''1'' else ''0'')) =
          Inr ((d @ (if pixels ! (w * row + col) < pixels ! (w * row + col + 1) then ''1'' else ''0'')) @
               map (dbit pixels w row) [col + 1..<h])"
      using "1.IH"[OF True l r] "1.prems" True by simp
    have up: "[col..<h] = col # [col + 1..<h]"
      using True by (simp add: upt_conv_Cons)
    show ?thesis
      apply (subst dhash_cols.simps)
      apply (simp only: True if_True l r sum.case step)
      apply (simp add: up dbit_def)
      done
  next
    case False
    with "1.prems" show ?thesis by (subst dhash_cols.simps) simp
  qed
qed

lemma dhash_rows_run:
  "(h + 1) * h \<le> length pixels \<Longrightarrow> row \<le> h \<Longrightarrow>
   dhash_rows pixels (h + 1) h row d =
     Inr (d @ concat (map (\<lambda>r. map (dbit pixels (h + 1) r) [0..<h]) [row..<h]))"
proof (induction pixels "h + 1" h row d rule: dhash_rows.induct)
  case (1 pixels h row d)
  show ?case
  proof (cases "row < h")
    case True
    have "(h + 1) * row + h < (h + 1) * h"
    proof -
      have "(h + 1) * (row + 1) \<le> (h + 1) * h"
        using True by (intro mult_le_mono2) simp
      then show ?thesis by simp
    qed
    then have b: "(h + 1) * row + h < length pixels"
      using "1.prems" by simp
    have c: "dhash_cols pixels (h + 1) h row 0 d =
               Inr (d @ map (dbit pixels (h + 1) row) [0..<h])"
      using dhash_cols_run[OF b, of 0 d] by simp
    have up: "[row..<h] = row # [row + 1..<h]"
      using True by (simp add: upt_conv_Cons)
    have step: "dhash_rows pixels (h + 1) h (row + 1) (d @ map (dbit pixels (h + 1) row) [0..<h]) =
       Inr ((d @ map (dbit pixels (h + 1) row) [0..<h]) @
            concat (map (\<lambda>r. map (dbit pixels (h + 1) r) [0..<h]) [row + 1..<h]))"
      using "1.hyps"[OF True c] "1.prems" True by simp
    show ?thesis
      apply (subst dhash_rows.simps)
      apply (simp only: True if_True c sum.case step)
      apply (simp add: up)
      done
  next
    case False
    with "1.prems" show ?thesis by (subst dhash_rows.simps) simp
  qed
qed

lemma length_concat_rows:
  "length (concat (map (\<lambda>r. map (f r) [0..<n]) [0..<m])) = m * n"
  by (induction m) simp_all

lemma nth_concat_rows:
  "r < m \<Longrightarrow> c < n \<Longrightarrow>
   concat (map (\<lambda>r. map (f r) [0..<n]) [0..<m]) ! (r * n + c) = f r c"
proof (induction m)
  case 0
  then show ?case by simp
next
  case (Suc m)
  show ?case
  proof (cases "r < m")
    case True
    then have "r * n + c < m * n"
    proof -
      have "(r + 1) * n \<le> m * n" using True by (intro mult_le_mono1) simp
      with Suc.prems show ?thesis by simp
    qed
    then show ?thesis
      using Suc.IH[OF True Suc.prems(2)] by (simp add: nth_append length_concat_rows)
  next
    case False
    with Suc.prems have "r = m" by simp
    then show ?thesis
      using Suc.prems by (simp add: nth_append length_concat_rows)
  qed
qed


lemma dhash_rows_total:
  assumes "(n + 1) * n \<le> length pixels"
  shows "dhash_rows pixels (n + 1) n 0 [] =
           Inr (concat (map (\<lambda>r. map (dbit pixels (n + 1) r) [0..<n]) [0..<n]))"
  using dhash_rows_run[OF assms, of 0 "[]"] by simp

lemma grid_index_bound:
  assumes "(n + 1) * n \<le> length pixels" "row < n" "col < n"
  shows "(n + 1) * row + col + 1 < length pixels"
proof -
  have "(n + 1) * (row + 1) \<le> (n + 1) * n"
    using assms(2) by (intro mult_le_mono2) simp
  then have "(n + 1) * row + n + 1 \<le> (n + 1) * n" by simp
  with assms show ?thesis by simp
qed

text \<open>
  Claim C4. For a grid buffer of at least \<open>(n + 1) * n\<close> pixels, \<open>dhash\<close> emits \<open>n * n\<close>
  bits, row-major: the bit of row \<open>r\<close> and column \<open>c\<close> stands at position \<open>r * n + c\<close>
  and is 1 exactly when the pixel at \<open>(c, r)\<close> is strictly less than the pixel at
  \<open>(c + 1, r)\<close>; the fingerprint is \<open>binaryToHex\<close> of this bit string.
\<close>

theorem dhash_bits:
  assumes "sharp_raw E p (n + 1) n = Some pixels" and "(n + 1) * n \<le> length pixels"
  shows "\<exists>difference.
           dhash_rows pixels (n + 1) n 0 [] = Inr difference \<and>
           dhash E p n = Inr (binaryToHex difference) \<and>
           length difference = n * n \<and>
           (\<forall>r<n. \<forall>c<n.
              difference ! (r * n + c) =
                (if pixels ! ((n + 1) * r + c) < pixels ! ((n + 1) * r + c + 1)
                 then CHR ''1'' else CHR ''0''))"
proof -
  let ?d = "concat (map (\<lambda>r. map (dbit pixels (n + 1) r) [0..<n]) [0..<n])"
  have run: "dhash_rows pixels (n + 1) n 0 [] = Inr ?d"
    by (rule dhash_rows_total[OF assms(2)])
  have "dhash E p n = Inr (binaryToHex ?d)"
    using assms(1) run by (simp add: dhash_def)
  moreover have "length ?d = n * n"
    by (rule length_concat_rows)
  moreover have "\<forall>r<n. \<forall>c<n. ?d ! (r * n + c) =
      (if pixels ! ((n + 1) * r + c) < pixels ! ((n + 1) * r + c + 1) then CHR ''1'' else CHR ''0'')"
    by (simp add: nth_concat_rows dbit_def)
  ultimately show ?thesis using run by blast
qed

text \<open>The stripes at hash size 4, row 1 and column 2.\<close>

theorem dhash_bits_witness:
  "sharp_raw example_env ''dir/a.png'' (4 + 1) 4 = Some (stripes 5 4) \<and>
   (4 + 1) * 4 \<le> length (stripes 5 4) \<and>
   (\<exists>difference.
      dhash_rows (stripes 5 4) (4 + 1) 4 0 [] = Inr difference \<and>
      dhash example_env ''dir/a.png'' 4 = Inr (binaryToHex difference) \<and>
      length difference = 4 * 4 \<and>
      difference ! (1 * 4 + 2) =
        (if stripes 5 4 ! ((4 + 1) * 1 + 2) < stripes 5 4 ! ((4 + 1) * 1 + 2 + 1)
         then CHR ''1'' else CHR ''0''))"
proof -
  have h1: "sharp_raw example_env ''dir/a.png'' (4 + 1) 4 = Some (stripes 5 4)"
    by (simp add: example_env_def)
  have h2: "(4 + 1) * 4 \<le> length (stripes 5 4)"
    by (simp add: stripes_def)
  obtain difference where d:
    "dhash_rows (stripes 5 4) (4 + 1) 4 0 [] = Inr difference"
    "dhash example_env ''dir/a.png'' 4 = Inr (binaryToHex difference)"
    "length difference = 4 * 4"
    "\<forall>r<4. \<forall>c<4. difference ! (r * 4 + c) =
        (if stripes 5 4 ! ((4 + 1) * r + c) < stripes 5 4 ! ((4 + 1) * r + c + 1)
         then CHR ''1'' else CHR ''0'')"
    using dhash_bits[OF h1 h2] by blast
  have "(1::nat) < 4" "(2::nat) < 4" by simp_all
  with d(4) have "difference ! (1 * 4 + 2) =
        (if stripes 5 4 ! ((4 + 1) * 1 + 2) < stripes 5 4 ! ((4 + 1) * 1 + 2 + 1)
         then CHR ''1'' else CHR ''0'')" by blast
  with h1 h2 d(1-3) show ?thesis by blast
qed

text \<open>
  Claim C10. For a buffer of at least \<open>(n + 1) * n\<close> pixels, every call of \<open>px\<close> made by
  the double loop of \<open>dhash\<close> (width \<open>n + 1\<close>, \<open>row < n\<close>, column \<open>col\<close> or \<open>col + 1\<close> with
  \<open>col < n\<close>) computes an index below the buffer length and returns the pixel: the
  assertion never fails and the loops end without an error.
\<close>

theorem px_never_fails_in_dhash:
  assumes "(n + 1) * n \<le> length pixels" and "row < n" and "col < n"
  shows "(n + 1) * row + col < length pixels \<and>
         (n + 1) * row + (col + 1) < length pixels \<and>
         px pixels (n + 1) col row = Inr (pixels ! ((n + 1) * row + col)) \<and>
         px pixels (n + 1) (col + 1) row = Inr (pixels ! ((n + 1) * row + (col + 1))) \<and>
         (\<forall>e. dhash_rows pixels (n + 1) n 0 [] \<noteq> Inl e)"
proof -
  have b: "(n + 1) * row + col + 1 < length pixels"
    by (rule grid_index_bound[OF assms])
  then have b1: "(n + 1) * row + (col + 1) < length pixels" by (simp add: add.assoc)
  from b have b0: "(n + 1) * row + col < length pixels" by simp
  have "px pixels (n + 1) col row = Inr (pixels ! ((n + 1) * row + col))"
    using b0 by (simp add: px_def)
  moreover have "px pixels (n + 1) (col + 1) row = Inr (pixels ! ((n + 1) * row + (col + 1)))"
    using b1 unfolding px_def Let_def by (simp only: if_True)
  moreover have "\<forall>e. dhash_rows pixels (n + 1) n 0 [] \<noteq> Inl e"
    using dhash_rows_total[OF assms(1)] by simp
  ultimately show ?thesis using b0 b1 by blast
qed




text \<open>The last call of the double loop at hash size 4.\<close>

theorem px_never_fails_in_dhash_witness:
  "(4 + 1) * 4 \<le> length (stripes 5 4) \<and> (3::nat) < 4 \<and> (3::nat) < 4 \<and>
   (4 + 1) * 3 + (3 + 1) < length (stripes 5 4) \<and>
   px (stripes 5 4) (4 + 1) (3 + 1) 3 = Inr (stripes 5 4 ! ((4 + 1) * 3 + (3 + 1)))"
proof -
  have h: "(4 + 1) * 4 \<le> length (stripes 5 4)"
    by (simp add: stripes_def)
  have r: "(3::nat) < 4" by simp
  from px_never_fails_in_dhash[OF h r r] h r show ?thesis by blast
qed

lemma binaryToHex_loop_hexOf: "binaryToHex_loop s i out = out @ hexOf (drop i s)"
proof (induction s i out rule: binaryToHex_loop.induct)
  case (1 s i out)
  show ?case
  proof (cases "i < length s")
    case True
    have IH: "binaryToHex_loop s (i + 4) (out @ toString16 (parseInt2 (take 4 (drop i s)))) =
              (out @ toString16 (parseInt2 (take 4 (drop i s)))) @ hexOf (drop (i + 4) s)"
      using "1.IH"[OF True refl refl refl] .
    have ne: "drop i s \<noteq> []" using True by simp
    have dd: "drop 4 (drop i s) = drop (i + 4) s" by (simp add: add.commute)
    have R: "hexOf (drop i s) = toString16 (parseInt2 (take 4 (drop i s))) @ hexOf (drop (i + 4) s)"
      by (subst hexOf.simps) (simp only: ne if_False dd)
    show ?thesis
      by (subst binaryToHex_loop.simps) (simp only: True if_True Let_def IH R append_assoc)
  next
    case False
    then have "drop i s = []" by simp
    then have "hexOf (drop i s) = []" by (subst hexOf.simps) simp
    then show ?thesis using False by (subst binaryToHex_loop.simps) simp
  qed
qed

lemma binaryToHex_hexOf: "binaryToHex s = Buffer_from_hex (hexOf s)"
  by (simp add: binaryToHex_def binaryToHex_loop_hexOf)

lemma parse_bound:
  "foldl (\<lambda>a c. 2 * a + (if c = CHR ''1'' then 1 else 0)) (a::nat) ds < (a + 1) * 2 ^ length ds"
proof (induction ds arbitrary: a)
  case Nil
  then show ?case by simp
next
  case (Cons c ds)
  let ?a' = "2 * a + (if c = CHR ''1'' then 1 else (0::nat))"
  have "foldl (\<lambda>a c. 2 * a + (if c = CHR ''1'' then 1 else 0)) ?a' ds < (?a' + 1) * 2 ^ length ds"
    by (rule Cons.IH)
  also have "(?a' + 1) * 2 ^ length ds \<le> (2 * a + 2) * 2 ^ length ds"
    by (intro mult_le_mono1) simp
  also have "\<dots> = (a + 1) * 2 ^ length (c # ds)" by simp
  finally show ?case by simp
qed

lemma parseInt2_chunk:
  assumes "chunk \<noteq> []" "\<forall>c\<in>set chunk. isBinDigit c" "length chunk \<le> 4"
  shows "\<exists>v<16. parseInt2 chunk = Some v"
proof -
  have tw: "takeWhile isBinDigit chunk = chunk" using assms(2) by (simp add: takeWhile_eq_all_conv)
  let ?v = "foldl (\<lambda>a c. 2 * a + (if c = CHR ''1'' then 1 else 0)) (0::nat) chunk"
  have "?v < (0 + 1) * 2 ^ length chunk" by (rule parse_bound)
  also have "\<dots> \<le> (2::nat) ^ 4" using assms(3) power_increasing[of "length chunk" 4 "2::nat"] by simp
  finally have "?v < 16" by simp
  moreover have "parseInt2 chunk = Some ?v"
    by (simp only: parseInt2_def Let_def tw assms(1) if_False)
  ultimately show ?thesis by blast
qed

lemma hexVal_hexDigit: "v < 16 \<Longrightarrow> hexVal (hexDigit v) = Some v"
proof -
  assume "v < 16"
  then have "v \<in> set [0..<16]" by simp
  then have "v = 0 \<or> v = 1 \<or> v = 2 \<or> v = 3 \<or> v = 4 \<or> v = 5 \<or> v = 6 \<or> v = 7 \<or>
             v = 8 \<or> v = 9 \<or> v = 10 \<or> v = 11 \<or> v = 12 \<or> v = 13 \<or> v = 14 \<or> v = 15"
    by (simp add: upt_rec numeral_eq_Suc)
  then show ?thesis
    by (elim disjE; hypsubst; simp add: hexDigit_def hexVal_def)
qed

lemma toString16_small: "v < 16 \<Longrightarrow> toString16 (Some v) = [hexDigit v]"
  by (simp add: toString16_def toString16_nat.simps)

lemma chunk_count: "0 < (L::nat) \<Longrightarrow> Suc ((L - 4 + 3) div 4) = (L + 3) div 4"
proof (cases "4 \<le> L")
  case True
  then have "L = (L - 4) + 4" by simp
  then obtain m where m: "L = m + 4" ..
  show ?thesis by (simp add: m)
next
  case False
  assume "0 < L"
  with False have "L = 1 \<or> L = 2 \<or> L = 3" by auto
  then show ?thesis by auto
qed

lemma hexOf_binary:
  "\<forall>c\<in>set s. isBinDigit c \<Longrightarrow>
   length (hexOf s) = (length s + 3) div 4 \<and> (\<forall>c\<in>set (hexOf s). isHex c)"
proof (induction s rule: hexOf.induct)
  case (1 s)
  show ?case
  proof (cases "s = []")
    case True
    then show ?thesis by (subst (1 2) hexOf.simps) simp
  next
    case False
    have bin4: "\<forall>c\<in>set (take 4 s). isBinDigit c" using "1.prems" by (meson in_set_takeD)
    have bind: "\<forall>c\<in>set (drop 4 s). isBinDigit c" using "1.prems" by (meson in_set_dropD)
    obtain v where v: "v < 16" "parseInt2 (take 4 s) = Some v"
      using parseInt2_chunk[of "take 4 s"] False bin4 by auto
    have H: "hexOf s = hexDigit v # hexOf (drop 4 s)"
      by (subst hexOf.simps) (simp add: False v toString16_small)
    have IH: "length (hexOf (drop 4 s)) = (length (drop 4 s) + 3) div 4 \<and>
              (\<forall>c\<in>set (hexOf (drop 4 s)). isHex c)"
      using "1.IH"[OF False bind] .
    have len: "Suc ((length s - 4 + 3) div 4) = (length s + 3) div 4"
      using False by (intro chunk_count) simp
    show ?thesis
      using IH len v(1) by (simp add: H isHex_def hexVal_hexDigit)
  qed
qed

lemma length_Buffer_from_hex:
  "\<forall>c\<in>set h. isHex c \<Longrightarrow> length (Buffer_from_hex h) = length h div 2"
  by (induction h rule: Buffer_from_hex.induct) (auto simp: isHex_def)

lemma length_binaryToHex:
  "\<forall>c\<in>set s. isBinDigit c \<Longrightarrow> length (binaryToHex s) = (length s + 3) div 4 div 2"
  using hexOf_binary[of s] by (simp add: binaryToHex_hexOf length_Buffer_from_hex)

lemma nibble_value:
  assumes "isBinDigit a" "isBinDigit b" "isBinDigit c" "isBinDigit d"
  shows "\<exists>v<16. parseInt2 [a, b, c, d] = Some v \<and> nibbleToBinary v = [a, b, c, d] \<and>
               v = 8 * bitVal a + 4 * bitVal b + 2 * bitVal c + bitVal d"
  using assms unfolding isBinDigit_def
  by (elim disjE; hypsubst;
      simp add: isBinDigit_def parseInt2_def nibbleToBinary_def bitChar_def bitVal_def)

lemma hexOf_nibble_value:
  assumes "isBinDigit a" "isBinDigit b" "isBinDigit c" "isBinDigit d"
  shows "\<exists>v<16. hexOf (a # b # c # d # rest) = hexDigit v # hexOf rest \<and>
                 nibbleToBinary v = [a, b, c, d] \<and>
                 v = 8 * bitVal a + 4 * bitVal b + 2 * bitVal c + bitVal d"
proof -
  obtain v where v: "v < 16" "parseInt2 [a, b, c, d] = Some v" "nibbleToBinary v = [a, b, c, d]"
    "v = 8 * bitVal a + 4 * bitVal b + 2 * bitVal c + bitVal d"
    using nibble_value[OF assms] by blast
  have "hexOf (a # b # c # d # rest) = hexDigit v # hexOf rest"
    by (subst hexOf.simps) (simp add: v(1,2) toString16_small)
  with v show ?thesis by blast
qed

lemma short_input_no_byte:
  assumes "\<forall>c\<in>set s. isBinDigit c" and "length s \<le> 4"
  shows "Buffer_from_hex (hexOf s) = []"
proof (cases "s = []")
  case True
  then show ?thesis by (subst hexOf.simps) simp
next
  case False
  have t: "take 4 s = s" "drop 4 s = []" using assms(2) by simp_all
  obtain v where v: "v < 16" "parseInt2 s = Some v"
    using parseInt2_chunk[of s] False assms by auto
  have e: "hexOf [] = []" by (subst hexOf.simps) simp
  have "hexOf s = [hexDigit v]"
    by (subst hexOf.simps) (simp add: False t v toString16_small e)
  then show ?thesis by simp
qed

lemma byteAt_Cons8:
  "byteAt (a # b # c # d # e # f # g # h # rest) (Suc k) = byteAt rest k"
proof -
  have "(a # b # c # d # e # f # g # h # rest) ! (8 * Suc k + j) = rest ! (8 * k + j)" for j
    using nth_append_length_plus[of "[a, b, c, d, e, f, g, h]" rest "8 * k + j"] by simp
  note n = this
  show ?thesis
    unfolding byteAt_def using n[of 0] n by (simp only: add_0_right)
qed

lemma byteAt_0:
  "byteAt (a # b # c # d # e # f # g # h # rest) 0 =
     16 * (8 * bitVal a + 4 * bitVal b + 2 * bitVal c + bitVal d) +
     (8 * bitVal e + 4 * bitVal f + 2 * bitVal g + bitVal h)"
  by (simp add: byteAt_def)

lemma pack_closed:
  "\<forall>c\<in>set s. isBinDigit c \<Longrightarrow> length s mod 8 \<le> 4 \<Longrightarrow>
   length (Buffer_from_hex (hexOf s)) = length s div 8 \<and>
   (\<forall>k<length s div 8. Buffer_from_hex (hexOf s) ! k = byteAt s k) \<and>
   bufferToBinary (Buffer_from_hex (hexOf s)) = take (8 * (length s div 8)) s"
proof (induction s rule: length_induct)
  case (1 s)
  show ?case
  proof (cases "length s < 8")
    case True
    then have "length s mod 8 = length s" by simp
    with "1.prems"(2) have le: "length s \<le> 4" by simp
    have "Buffer_from_hex (hexOf s) = []"
      by (rule short_input_no_byte[OF "1.prems"(1) le])
    moreover have "length s div 8 = 0" using True by simp
    ultimately show ?thesis by (simp add: bufferToBinary_def)
  next
    case False
    then have "8 \<le> length s" by simp
    then obtain a b c d e f g h rest where s: "s = a # b # c # d # e # f # g # h # rest"
      by (auto simp: numeral_eq_Suc Suc_le_length_iff)
    have bins: "isBinDigit a" "isBinDigit b" "isBinDigit c" "isBinDigit d"
      "isBinDigit e" "isBinDigit f" "isBinDigit g" "isBinDigit h" "\<forall>c\<in>set rest. isBinDigit c"
      using "1.prems"(1) by (simp_all add: s)
    have len: "length s = length rest + 8" by (simp add: s)
    have dv: "length s div 8 = Suc (length rest div 8)" by (simp add: len)
    have md: "length rest mod 8 \<le> 4" using "1.prems"(2) by (simp add: len)
    obtain v1 where v1: "v1 < 16" "hexOf s = hexDigit v1 # hexOf (e # f # g # h # rest)"
      "nibbleToBinary v1 = [a, b, c, d]"
      "v1 = 8 * bitVal a + 4 * bitVal b + 2 * bitVal c + bitVal d"
      using hexOf_nibble_value[OF bins(1-4), of "e # f # g # h # rest"] s by blast
    obtain v2 where v2: "v2 < 16" "hexOf (e # f # g # h # rest) = hexDigit v2 # hexOf rest"
      "nibbleToBinary v2 = [e, f, g, h]"
      "v2 = 8 * bitVal e + 4 * bitVal f + 2 * bitVal g + bitVal h"
      using hexOf_nibble_value[OF bins(5-8), of rest] by blast
    have "length rest < length s" by (simp add: len)
    with "1.IH" bins(9) md have IH:
      "length (Buffer_from_hex (hexOf rest)) = length rest div 8"
      "\<forall>k<length rest div 8. Buffer_from_hex (hexOf rest) ! k = byteAt rest k"
      "bufferToBinary (Buffer_from_hex (hexOf rest)) = take (8 * (length rest div 8)) rest"
      by blast+
    have B: "Buffer_from_hex (hexOf s) = (16 * v1 + v2) # Buffer_from_hex (hexOf rest)"
      by (simp add: v1(1,2) v2(1,2) hexVal_hexDigit)
    have b0: "16 * v1 + v2 = byteAt s 0"
      unfolding s byteAt_0 v1(4) v2(4) ..
    have p1: "length (Buffer_from_hex (hexOf s)) = length s div 8"
      by (simp add: B IH(1) dv)
    have p2: "\<forall>k<length s div 8. Buffer_from_hex (hexOf s) ! k = byteAt s k"
    proof (intro allI impI)
      fix k assume k: "k < length s div 8"
      show "Buffer_from_hex (hexOf s) ! k = byteAt s k"
      proof (cases k)
        case 0
        then show ?thesis by (simp add: B b0)
      next
        case (Suc k')
        with k dv have "k' < length rest div 8" by simp
        with IH(2) have "Buffer_from_hex (hexOf rest) ! k' = byteAt rest k'" by blast
        then show ?thesis
          unfolding Suc B by (simp add: s byteAt_Cons8)
      qed
    qed
    have "bufferToBinary (Buffer_from_hex (hexOf s)) =
            [a, b, c, d] @ [e, f, g, h] @ bufferToBinary (Buffer_from_hex (hexOf rest))"
      unfolding B by (simp add: bufferToBinary_def v1(1,3) v2(1,3))
    also have "\<dots> = take (8 * (length s div 8)) s"
    proof -
      have e8: "8 * (length s div 8) = 8 + 8 * (length rest div 8)"
        by (simp add: dv)
      have tk: "take (8 + 8 * (length rest div 8)) (a # b # c # d # e # f # g # h # rest) =
                  a # b # c # d # e # f # g # h # take (8 * (length rest div 8)) rest"
        using take_append[of "8 + 8 * (length rest div 8)" "[a, b, c, d, e, f, g, h]" rest]
        by simp
      show ?thesis
        unfolding e8 IH(3) by (simp only: s tk append_Cons append_Nil)
    qed
    finally have p3: "bufferToBinary (Buffer_from_hex (hexOf s)) = take (8 * (length s div 8)) s" .
    from p1 p2 p3 show ?thesis by blast
  qed
qed

lemma square_mod_8: "(n * n) mod 8 \<le> (4::nat)"
proof -
  define r where "r = n mod 8"
  have sq: "(n * n) mod 8 = (r * r) mod 8"
    unfolding r_def by (simp add: mod_mult_eq)
  have "r < 8" unfolding r_def by simp
  then have "r \<in> set [0..<8]" by simp
  then have "r = 0 \<or> r = 1 \<or> r = 2 \<or> r = 3 \<or> r = 4 \<or> r = 5 \<or> r = 6 \<or> r = 7"
    by (simp add: upt_rec numeral_eq_Suc)
  then have "(r * r) mod 8 \<le> 4"
    by (elim disjE; hypsubst; simp)
  with sq show ?thesis by simp
qed

lemma digits_to_bytes:
  assumes "(L::nat) mod 8 \<le> 4"
  shows "(L + 3) div 4 div 2 = L div 8" and "L - 8 * (L div 8) \<le> 4"
proof -
  define q r where "q = L div 8" and "r = L mod 8"
  have L: "L = 8 * q + r" unfolding q_def r_def by simp
  have r: "r \<le> 4" using assms unfolding r_def .
  have "(L + 3) div 4 div 2 = (L + 3) div 8"
    by (simp add: div_mult2_eq[symmetric])
  also have "\<dots> = (r + 3 + q * 8) div 8" by (simp add: L ac_simps)
  also have "\<dots> = (r + 3) div 8 + q" by simp
  also have "\<dots> = q" using r by simp
  finally show "(L + 3) div 4 div 2 = L div 8" by (simp add: q_def)
  show "L - 8 * (L div 8) \<le> 4"
    using r unfolding q_def[symmetric] by (simp add: L)
qed

lemma dbit_binary: "isBinDigit (dbit pixels w r c)"
  by (simp add: dbit_def isBinDigit_def)

lemma difference_binary:
  "\<forall>ch\<in>set (concat (map (\<lambda>r. map (dbit pixels w r) [0..<n]) [0..<m])). isBinDigit ch"
  by (auto simp: dbit_binary)

lemma multiple_of_four_square:
  assumes "(n::nat) mod 4 = 0"
  shows "(n * n) mod 8 = 0"
proof -
  from assms obtain k where k: "n = 4 * k" by (auto simp: mod_eq_0_iff_dvd)
  have sq: "n * n = 8 * (2 * k * k)" by (simp add: k)
  show "(n * n) mod 8 = 0" by (simp add: sq)
qed

text \<open>
  Claim C3, as amended. \<open>dhash\<close> emits \<open>n * n\<close> bits. They become \<open>(n * n + 3) div 4\<close>
  hexadecimal digits, one for each group of four bits in emission order, and
  \<open>Buffer.from\<close> keeps the complete pairs of digits: the fingerprint has
  \<open>(n * n + 3) div 4 div 2\<close> bytes, which is \<open>n * n div 8\<close>; byte \<open>k\<close> is the number whose
  binary digits are the bits \<open>8 * k\<close> to \<open>8 * k + 7\<close>, so decoding the fingerprint gives
  the first \<open>8 * (n * n div 8)\<close> emitted bits back. The bits after them, at most four
  (the last digit), are dropped. When \<open>n\<close> is a multiple of 4 no bit is dropped.
\<close>

theorem dhash_fingerprint_bits:
  assumes "sharp_raw E p (n + 1) n = Some pixels" and "(n + 1) * n \<le> length pixels"
  shows "\<exists>difference fp.
           dhash_rows pixels (n + 1) n 0 [] = Inr difference \<and>
           length difference = n * n \<and>
           dhash E p n = Inr fp \<and>
           length fp = (n * n + 3) div 4 div 2 \<and>
           length fp = n * n div 8 \<and>
           (\<forall>k<length fp. fp ! k = byteAt difference k) \<and>
           bufferToBinary fp = take (8 * length fp) difference \<and>
           n * n - 8 * length fp \<le> 4 \<and>
           (n mod 4 = 0 \<longrightarrow> 8 * length fp = n * n \<and> bufferToBinary fp = difference)"
proof -
  let ?d = "concat (map (\<lambda>r. map (dbit pixels (n + 1) r) [0..<n]) [0..<n])"
  let ?fp = "binaryToHex ?d"
  have run: "dhash_rows pixels (n + 1) n 0 [] = Inr ?d"
    by (rule dhash_rows_total[OF assms(2)])
  have len: "length ?d = n * n"
    by (rule length_concat_rows)
  have bin: "\<forall>ch\<in>set ?d. isBinDigit ch"
    by (rule difference_binary)
  have fp: "dhash E p n = Inr ?fp"
    using assms(1) run by (simp add: dhash_def)
  have m8: "length ?d mod 8 \<le> 4"
    using square_mod_8[of n] by (simp only: len)
  have pc: "length ?fp = n * n div 8 \<and>
            (\<forall>k<n * n div 8. ?fp ! k = byteAt ?d k) \<and>
            bufferToBinary ?fp = take (8 * (n * n div 8)) ?d"
    using pack_closed[OF bin m8] unfolding binaryToHex_hexOf len .
  have l8: "length ?fp = n * n div 8"
    using pc by (rule conjunct1)
  have bytes: "\<forall>k<n * n div 8. ?fp ! k = byteAt ?d k"
    using pc by (elim conjE)
  have decoded: "bufferToBinary ?fp = take (8 * (n * n div 8)) ?d"
    using pc by (elim conjE)
  have m8': "(n * n) mod 8 \<le> 4" by (rule square_mod_8)
  have l4: "length ?fp = (n * n + 3) div 4 div 2"
    using digits_to_bytes(1)[OF m8'] by (simp only: l8)
  have bytes': "\<forall>k<length ?fp. ?fp ! k = byteAt ?d k"
    using bytes by (simp only: l8)
  have decoded': "bufferToBinary ?fp = take (8 * length ?fp) ?d"
    using decoded by (simp only: l8)
  have lost: "n * n - 8 * length ?fp \<le> 4"
    using digits_to_bytes(2)[OF m8'] by (simp only: l8)
  have full: "n mod 4 = 0 \<longrightarrow> 8 * length ?fp = n * n \<and> bufferToBinary ?fp = ?d"
  proof
    assume n4: "n mod 4 = 0"
    have "8 * (n * n div 8) = n * n"
      using mult_div_mod_eq[of 8 "n * n"] multiple_of_four_square[OF n4] by (simp only: add_0_right)
    then have e: "8 * length ?fp = n * n" by (simp only: l8)
    have "take (8 * length ?fp) ?d = ?d"
      by (simp only: e len[symmetric] take_all order_refl)
    with decoded' e show "8 * length ?fp = n * n \<and> bufferToBinary ?fp = ?d" by simp
  qed
  show ?thesis
    by (intro exI[of _ ?d] exI[of _ ?fp] conjI run len fp l4 l8 bytes' decoded' lost full)
qed

text \<open>
  The stripes at hash size 4: sixteen bits in two bytes. At hash size 3: nine bits, of
  which the first eight make the one byte.
\<close>

theorem dhash_fingerprint_bits_witness:
  "sharp_raw example_env ''dir/a.png'' (4 + 1) 4 = Some (stripes 5 4) \<and>
   (4 + 1) * 4 \<le> length (stripes 5 4) \<and>
   dhash example_env ''dir/a.png'' 4 = Inr [165, 165] \<and>
   bufferToBinary [165, 165] = ''1010010110100101'' \<and>
   dhash_rows (stripes 4 3) (3 + 1) 3 0 [] = Inr ''101101101'' \<and>
   dhash example_env ''dir/a.png'' 3 = Inr [182] \<and>
   bufferToBinary [182] = take 8 ''101101101''"
proof -
  have h1: "sharp_raw example_env ''dir/a.png'' (4 + 1) 4 = Some (stripes 5 4)"
    by (simp add: example_env_def)
  have h2: "(4 + 1) * 4 \<le> length (stripes 5 4)"
    by (simp add: stripes_def)
  have fp: "dhash example_env ''dir/a.png'' 4 = Inr [165, 165]"
    by code_simp
  obtain difference fp where
    "dhash_rows (stripes 5 4) (4 + 1) 4 0 [] = Inr difference"
    "dhash example_env ''dir/a.png'' 4 = Inr fp"
    "bufferToBinary fp = difference"
    using dhash_fingerprint_bits[OF h1 h2] by auto
  moreover have "dhash_rows (stripes 5 4) (4 + 1) 4 0 [] = Inr ''1010010110100101''"
    by code_simp
  ultimately have b: "bufferToBinary [165, 165] = ''1010010110100101''"
    using fp by simp
  have odd: "dhash_rows (stripes 4 3) (3 + 1) 3 0 [] = Inr ''101101101'' \<and>
             dhash example_env ''dir/a.png'' 3 = Inr [182] \<and>
             bufferToBinary [182] = take 8 ''101101101''"
    by code_simp
  from h1 h2 fp b odd show ?thesis by blast
qed

text \<open>
  Claim C3 as stated fails at hash size 2: the stripes and the gradient emit different
  bit strings of four bits, each becomes a single hexadecimal digit, and both
  fingerprints are empty.
\<close>

theorem dhash_drops_bits_counterexample:
  "sharp_raw example_env ''dir/a.png'' (2 + 1) 2 = Some [0, 1, 0, 1, 0, 1] \<and>
   sharp_raw example_env ''dir/c.png'' (2 + 1) 2 = Some [6, 5, 4, 3, 2, 1] \<and>
   dhash_rows [0, 1, 0, 1, 0, 1] (2 + 1) 2 0 [] = Inr ''1001'' \<and>
   dhash_rows [6, 5, 4, 3, 2, 1] (2 + 1) 2 0 [] = Inr ''0000'' \<and>
   dhash example_env ''dir/a.png'' 2 = Inr [] \<and>
   dhash example_env ''dir/c.png'' 2 = Inr [] \<and>
   8 * length ([] :: nat list) \<noteq> 2 * 2"
  by code_simp

subsection \<open>Hashing in order\<close>

lemma Promise_all_append:
  "Promise_all (xs @ ys) =
     (case Promise_all xs of
        Inl e \<Rightarrow> Inl e
      | Inr rs \<Rightarrow> (case Promise_all ys of Inl e \<Rightarrow> Inl e | Inr rs' \<Rightarrow> Inr (rs @ rs')))"
  by (induction xs) (auto split: sum.splits)

lemma Promise_all_results:
  "Promise_all (map f xs) = Inr rs \<Longrightarrow>
   length rs = length xs \<and> (\<forall>i<length xs. f (xs ! i) = Inr (rs ! i))"
proof (induction xs arbitrary: rs)
  case Nil
  then show ?case by simp
next
  case (Cons x xs)
  from Cons.prems obtain r rs' where
    r: "f x = Inr r" and rs': "Promise_all (map f xs) = Inr rs'" and rs: "rs = r # rs'"
    by (auto split: sum.splits)
  from Cons.IH[OF rs'] have IH: "length rs' = length xs" "\<forall>i<length xs. f (xs ! i) = Inr (rs' ! i)"
    by simp_all
  show ?case
  proof (intro conjI allI impI)
    show "length rs = length (x # xs)" using IH(1) rs by simp
  next
    fix i assume "i < length (x # xs)"
    then show "f ((x # xs) ! i) = Inr (rs ! i)"
      using r IH(2) rs by (cases i) simp_all
  qed
qed

lemma mapLimit_loop_closed:
  assumes "0 < limit"
  shows "mapLimit_loop array limit f i results =
           Some (case Promise_all (map f (drop i array)) of
                   Inl e \<Rightarrow> Inl e
                 | Inr rs \<Rightarrow> Inr (results @ rs))"
proof (induction "length array - i" arbitrary: i results rule: less_induct)
  case less
  show ?case
  proof (cases "i < length array")
    case True
    let ?batch = "take limit (drop i array)"
    have split: "drop i array = ?batch @ drop (i + limit) array"
      using append_take_drop_id[of limit "drop i array"] by (simp add: add.commute)
    show ?thesis
    proof (cases "Promise_all (map f ?batch)")
      case (Inl e)
      have "Promise_all (map f (drop i array)) = Inl e"
        by (subst split) (simp add: Promise_all_append Inl)
      then show ?thesis
        by (subst mapLimit_loop.simps) (simp add: True Inl)
    next
      case (Inr rs)
      have smaller: "length array - (i + limit) < length array - i"
        using True assms by simp
      have IH: "mapLimit_loop array limit f (i + limit) (results @ rs) =
                  Some (case Promise_all (map f (drop (i + limit) array)) of
                          Inl e \<Rightarrow> Inl e
                        | Inr rs' \<Rightarrow> Inr ((results @ rs) @ rs'))"
        by (rule less[OF smaller])
      have "Promise_all (map f (drop i array)) =
              (case Promise_all (map f (drop (i + limit) array)) of
                 Inl e \<Rightarrow> Inl e
               | Inr rs' \<Rightarrow> Inr (rs @ rs'))"
        by (subst split) (simp add: Promise_all_append Inr)
      then show ?thesis
        by (subst mapLimit_loop.simps) (simp add: True Inr IH split: sum.splits)
    qed
  next
    case False
    then show ?thesis
      by (subst mapLimit_loop.simps) simp
  qed
qed

lemma mapLimit_closed:
  "0 < limit \<Longrightarrow> mapLimit array limit f = Some (Promise_all (map f array))"
  by (simp add: mapLimit_def mapLimit_loop_closed split: sum.splits)

lemma hashList_of_closed:
  "hashList_of E n imageFilePaths = Some (Promise_all (map (\<lambda>file. dhash E file n) imageFilePaths))"
  by (simp add: hashList_of_def mapLimit_closed)

text \<open>
  Claim C8. \<open>mapLimit\<close> with the \<open>dhash\<close> iteratee returns, and when it returns a hash
  list, the list is as long as the path list and its \<open>i\<close>-th entry is the fingerprint
  of the \<open>i\<close>-th path.
\<close>

theorem hashList_order_preserving:
  "(\<exists>r. mapLimit imageFilePaths 1 (\<lambda>file. dhash E file n) = Some r) \<and>
   (\<forall>hashList.
      mapLimit imageFilePaths 1 (\<lambda>file. dhash E file n) = Some (Inr hashList) \<longrightarrow>
      hashList_of E n imageFilePaths = Some (Inr hashList) \<and>
      length hashList = length imageFilePaths \<and>
      (\<forall>i<length imageFilePaths. dhash E (imageFilePaths ! i) n = Inr (hashList ! i)))"
proof (intro conjI allI impI)
  show "\<exists>r. mapLimit imageFilePaths 1 (\<lambda>file. dhash E file n) = Some r"
    by (simp add: mapLimit_closed)
next
  fix hashList
  assume a: "mapLimit imageFilePaths 1 (\<lambda>file. dhash E file n) = Some (Inr hashList)"
  then show "hashList_of E n imageFilePaths = Some (Inr hashList)"
    by (simp add: hashList_of_def)
  from a have p: "Promise_all (map (\<lambda>file. dhash E file n) imageFilePaths) = Inr hashList"
    by (simp add: mapLimit_closed)
  from Promise_all_results[OF p] show "length hashList = length imageFilePaths" by blast
  fix i assume "i < length imageFilePaths"
  with Promise_all_results[OF p] show "dhash E (imageFilePaths ! i) n = Inr (hashList ! i)"
    by blast
qed

text \<open>The three pictures of the example directory at hash size 4.\<close>

theorem hashList_order_preserving_witness:
  "mapLimit [''dir/a.png'', ''dir/b.png'', ''dir/c.png''] 1 (\<lambda>file. dhash example_env file 4) =
     Some (Inr [[165, 165], [165, 165], [0, 0]]) \<and>
   length [[165, 165], [165, 165], [0 :: nat, 0]] =
     length [''dir/a.png'', ''dir/b.png'', ''dir/c.png''] \<and>
   dhash example_env ([''dir/a.png'', ''dir/b.png'', ''dir/c.png''] ! 2) 4 =
     Inr ([[165, 165], [165, 165], [0, 0]] ! 2)"
proof -
  have run: "mapLimit [''dir/a.png'', ''dir/b.png'', ''dir/c.png''] 1
               (\<lambda>file. dhash example_env file 4) = Some (Inr [[165, 165], [165, 165], [0, 0]])"
    by code_simp
  have "(2::nat) < length [''dir/a.png'', ''dir/b.png'', ''dir/c.png'']" by simp
  with hashList_order_preserving[of "[''dir/a.png'', ''dir/b.png'', ''dir/c.png'']" example_env 4] run
  show ?thesis by blast
qed

lemma findDuplicateImages_closed:
  "findDuplicateImages E src opts =
     (case imageFilePaths_of E src of
        Inl e \<Rightarrow> Some (Inl e)
      | Inr imageFilePaths \<Rightarrow>
          (case Promise_all (map (\<lambda>file. dhash E file (hashSize opts)) imageFilePaths) of
             Inl e \<Rightarrow> Some (Inl e)
           | Inr hashList \<Rightarrow>
               Some (duplicatesWithMetadata_loop E
                 (duplicates_of E (maxDuplicates opts) (maxDistance opts) imageFilePaths hashList)
                 [])))"
  by (simp add: findDuplicateImages_def hashList_of_closed split: sum.splits)

text \<open>The call always returns: with a result or with an error.\<close>

lemma findDuplicateImages_returns: "\<exists>r. findDuplicateImages E src opts = Some r"
  by (simp add: findDuplicateImages_closed split: sum.splits)

text \<open>A single directory that cannot be listed makes the call fail.\<close>

lemma unlistable_directory_fails:
  "fs_readdir E d = None \<Longrightarrow> findDuplicateImages E (Directory d) opts = Some (Inl (ReaddirError d))"
  by (simp add: findDuplicateImages_def imageFilePaths_of_def)

subsection \<open>Collecting paths, empty inputs and failures\<close>

lemma allImagePaths_loop_closed:
  "allImagePaths_loop E items acc = acc @ concat (map (item_paths E) items)"
  by (induction items arbitrary: acc) (auto simp: item_paths_def split: option.splits)

lemma imageFilePaths_of_Paths:
  "imageFilePaths_of E (Paths items) = Inr (sort (concat (map (item_paths E) items)))"
  by (simp add: imageFilePaths_of_def allImagePaths_loop_closed)

lemma item_paths_excluded: "excluded E p \<Longrightarrow> item_paths E p = []"
  by (auto simp: excluded_def item_paths_def)

lemma item_paths_imageless: "imageless_folder E p \<Longrightarrow> item_paths E p = []"
  by (auto simp: imageless_folder_def item_paths_def split: option.splits)

lemma duplicates_of_empty: "duplicates_of E k d ps [] = []"
  by (simp add: duplicates_of_def group_loop.simps)

lemma no_images_no_groups:
  assumes "imageFilePaths_of E src = Inr []"
  shows "findDuplicateImages E src opts = Some (Inr [])"
  by (simp add: findDuplicateImages_closed assms duplicates_of_empty)

text \<open>
  Claim C9. A list in which every path is non-existent, an existing file that is no
  image, or an existing directory without image files (the empty list among them),
  and a directory whose listing holds no image file, give the empty list of groups.
\<close>

theorem empty_input_gives_no_groups:
  "((\<forall>p\<in>set items. excluded E p \<or> imageless_folder E p) \<longrightarrow>
      findDuplicateImages E (Paths items) opts = Some (Inr [])) \<and>
   (fs_readdir E d = Some files \<and> filter isImageFile files = [] \<longrightarrow>
      findDuplicateImages E (Directory d) opts = Some (Inr []))"
proof (intro conjI impI)
  assume a: "\<forall>p\<in>set items. excluded E p \<or> imageless_folder E p"
  have c: "concat (map (item_paths E) items) = []"
    using a by (auto simp: item_paths_excluded item_paths_imageless)
  have "imageFilePaths_of E (Paths items) = Inr []"
    by (simp only: imageFilePaths_of_Paths c sort_key_simps)
  then show "findDuplicateImages E (Paths items) opts = Some (Inr [])"
    by (rule no_images_no_groups)
next
  assume "fs_readdir E d = Some files \<and> filter isImageFile files = []"
  then have "imageFilePaths_of E (Directory d) = Inr []"
    by (simp add: imageFilePaths_of_def)
  then show "findDuplicateImages E (Directory d) opts = Some (Inr [])"
    by (rule no_images_no_groups)
qed

text \<open>
  The empty list; a list of a missing path and the text file of the example directory;
  the directory that lists a text file only, in a list and on its own.
\<close>

theorem empty_input_gives_no_groups_witness:
  "findDuplicateImages example_env (Paths []) defaultOptions = Some (Inr []) \<and>
   excluded example_env ''missing.png'' \<and> excluded example_env ''dir/notes.txt'' \<and>
   findDuplicateImages example_env (Paths [''missing.png'', ''dir/notes.txt'']) defaultOptions =
     Some (Inr []) \<and>
   imageless_folder notes_only_env ''dir'' \<and>
   findDuplicateImages notes_only_env (Paths [''dir'', ''missing.png'']) defaultOptions =
     Some (Inr []) \<and>
   fs_readdir notes_only_env ''dir'' = Some [''notes.txt''] \<and>
   filter isImageFile [''notes.txt''] = [] \<and>
   findDuplicateImages notes_only_env (Directory ''dir'') defaultOptions = Some (Inr [])"
proof -
  have e1: "excluded example_env ''missing.png''"
    by code_simp
  have e2: "excluded example_env ''dir/notes.txt''"
    by code_simp
  have e3: "excluded notes_only_env ''missing.png''"
    by code_simp
  have i1: "imageless_folder notes_only_env ''dir''"
    by code_simp
  have r: "fs_readdir notes_only_env ''dir'' = Some [''notes.txt'']"
    by code_simp
  have f: "filter isImageFile [''notes.txt''] = []"
    by code_simp
  have a0: "\<forall>p\<in>set []. excluded example_env p \<or> imageless_folder example_env p" by simp
  have a1: "\<forall>p\<in>set [''missing.png'', ''dir/notes.txt''].
              excluded example_env p \<or> imageless_folder example_env p"
    using e1 e2 by simp
  have a2: "\<forall>p\<in>set [''dir'', ''missing.png''].
              excluded notes_only_env p \<or> imageless_folder notes_only_env p"
    using e3 i1 by simp
  from empty_input_gives_no_groups[where items = "[]" and E = example_env and opts = defaultOptions] a0
  have g0: "findDuplicateImages example_env (Paths []) defaultOptions = Some (Inr [])" by blast
  from empty_input_gives_no_groups[where items = "[''missing.png'', ''dir/notes.txt'']"
      and E = example_env and opts = defaultOptions] a1
  have g1: "findDuplicateImages example_env (Paths [''missing.png'', ''dir/notes.txt'']) defaultOptions =
              Some (Inr [])" by blast
  from empty_input_gives_no_groups[where items = "[''dir'', ''missing.png'']"
      and E = notes_only_env and opts = defaultOptions] a2
  have g2: "findDuplicateImages notes_only_env (Paths [''dir'', ''missing.png'']) defaultOptions =
              Some (Inr [])" by blast
  from empty_input_gives_no_groups[where E = notes_only_env
      and d = "''dir''" and files = "[''notes.txt'']" and opts = defaultOptions] r f
  have g3: "findDuplicateImages notes_only_env (Directory ''dir'') defaultOptions = Some (Inr [])"
    by blast
  from e1 e2 i1 r f g0 g1 g2 g3 show ?thesis by blast
qed

lemma mset_concat_map_cong:
  assumes "mset xs = mset ys"
  shows "mset (concat (map f xs)) = mset (concat (map f ys))"
proof -
  have "mset (concat (map f zs)) = sum_mset (image_mset (\<lambda>z. mset (f z)) (mset zs))" for zs
    by (induction zs) simp_all
  then show ?thesis using assms by simp
qed

lemma sort_cong_mset:
  fixes xs ys :: "'a::linorder list"
  assumes "mset xs = mset ys"
  shows "sort xs = sort ys"
  by (rule properties_for_sort) (simp_all add: assms)

lemma pathExists_knn: "pathExists (E\<lparr>kdtree_knn := K\<rparr>) = pathExists E"
  by (simp add: fun_eq_iff pathExists_def)

lemma isFolder_knn: "isFolder (E\<lparr>kdtree_knn := K\<rparr>) = isFolder E"
  by (simp add: fun_eq_iff isFolder_def)

lemma item_paths_knn: "item_paths (E\<lparr>kdtree_knn := K\<rparr>) = item_paths E"
  by (simp add: fun_eq_iff item_paths_def pathExists_knn isFolder_knn split: option.splits)

lemma dhash_knn: "dhash (E\<lparr>kdtree_knn := K\<rparr>) = dhash E"
  by (simp add: fun_eq_iff dhash_def)

lemma hashList_of_knn: "hashList_of (E\<lparr>kdtree_knn := K\<rparr>) n ps = hashList_of E n ps"
  by (simp add: hashList_of_def dhash_knn)

text \<open>
  Claim C7, as amended. For two source arrays that are permutations of each other, in
  environments that differ at most in the answers of the k-d tree, the collected and
  sorted list of image paths is the same and so is the hash list; when the k-d tree
  gives the same answers in both runs, the results are the same.
\<close>

theorem permuted_input_same_paths_and_hashes:
  assumes "mset items = mset items'"
  shows "imageFilePaths_of (E\<lparr>kdtree_knn := K\<rparr>) (Paths items) =
           imageFilePaths_of (E\<lparr>kdtree_knn := K'\<rparr>) (Paths items') \<and>
         hashList_of (E\<lparr>kdtree_knn := K\<rparr>) n ps = hashList_of (E\<lparr>kdtree_knn := K'\<rparr>) n ps \<and>
         findDuplicateImages (E\<lparr>kdtree_knn := K\<rparr>) (Paths items) opts =
           findDuplicateImages (E\<lparr>kdtree_knn := K\<rparr>) (Paths items') opts"
proof -
  have "mset (concat (map (item_paths E) items)) = mset (concat (map (item_paths E) items'))"
    by (rule mset_concat_map_cong[OF assms])
  then have srt: "sort (concat (map (item_paths E) items)) = sort (concat (map (item_paths E) items'))"
    by (rule sort_cong_mset)
  have paths: "imageFilePaths_of (E\<lparr>kdtree_knn := K1\<rparr>) (Paths items) =
               imageFilePaths_of (E\<lparr>kdtree_knn := K2\<rparr>) (Paths items')" for K1 K2
    by (simp only: imageFilePaths_of_Paths item_paths_knn srt)
  have hashes: "hashList_of (E\<lparr>kdtree_knn := K\<rparr>) n ps = hashList_of (E\<lparr>kdtree_knn := K'\<rparr>) n ps"
    by (simp only: hashList_of_knn)
  have "findDuplicateImages (E\<lparr>kdtree_knn := K\<rparr>) (Paths items) opts =
          findDuplicateImages (E\<lparr>kdtree_knn := K\<rparr>) (Paths items') opts"
    using paths[of K K] by (simp add: findDuplicateImages_def)
  with paths[of K K'] hashes show ?thesis by blast
qed

text \<open>
  Three pictures with the same fingerprint, named in two orders, with the two orders
  among points at the same distance.
\<close>

theorem permuted_input_same_paths_and_hashes_witness:
  "mset [''c.png'', ''b.png'', ''a.png''] = mset [''a.png'', ''b.png'', ''c.png''] \<and>
   imageFilePaths_of (uniform_env\<lparr>kdtree_knn := \<lambda>i. knn_spec\<rparr>)
     (Paths [''c.png'', ''b.png'', ''a.png'']) = Inr [''a.png'', ''b.png'', ''c.png''] \<and>
   imageFilePaths_of (uniform_env\<lparr>kdtree_knn := \<lambda>i. knn_spec_desc\<rparr>)
     (Paths [''a.png'', ''b.png'', ''c.png'']) = Inr [''a.png'', ''b.png'', ''c.png''] \<and>
   hashList_of (uniform_env\<lparr>kdtree_knn := \<lambda>i. knn_spec\<rparr>) 4 [''a.png'', ''b.png'', ''c.png''] =
     Some (Inr [[165, 165], [165, 165], [165, 165]]) \<and>
   hashList_of (uniform_env\<lparr>kdtree_knn := \<lambda>i. knn_spec_desc\<rparr>) 4 [''a.png'', ''b.png'', ''c.png''] =
     Some (Inr [[165, 165], [165, 165], [165, 165]]) \<and>
   findDuplicateImages (uniform_env\<lparr>kdtree_knn := \<lambda>i. knn_spec\<rparr>)
     (Paths [''c.png'', ''b.png'', ''a.png''])
     \<lparr>hashSize = 4, maxDuplicates = 2, maxDistance = 5\<rparr> =
     Some (Inr [[\<lparr>path = ''a.png'', width = 10, height = 10\<rparr>,
                 \<lparr>path = ''b.png'', width = 10, height = 10\<rparr>]]) \<and>
   findDuplicateImages (uniform_env\<lparr>kdtree_knn := \<lambda>i. knn_spec\<rparr>)
     (Paths [''a.png'', ''b.png'', ''c.png''])
     \<lparr>hashSize = 4, maxDuplicates = 2, maxDistance = 5\<rparr> =
     Some (Inr [[\<lparr>path = ''a.png'', width = 10, height = 10\<rparr>,
                 \<lparr>path = ''b.png'', width = 10, height = 10\<rparr>]])"
proof -
  let ?opts = "\<lparr>hashSize = 4, maxDuplicates = 2, maxDistance = 5\<rparr>"
  have m: "mset [''c.png'', ''b.png'', ''a.png''] = mset [''a.png'', ''b.png'', ''c.png'']"
    by simp
  have p: "imageFilePaths_of (uniform_env\<lparr>kdtree_knn := \<lambda>i. knn_spec\<rparr>)
     (Paths [''c.png'', ''b.png'', ''a.png'']) = Inr [''a.png'', ''b.png'', ''c.png'']"
    by code_simp
  have h: "hashList_of (uniform_env\<lparr>kdtree_knn := \<lambda>i. knn_spec\<rparr>) 4 [''a.png'', ''b.png'', ''c.png''] =
     Some (Inr [[165, 165], [165, 165], [165, 165]])"
    by code_simp
  have r: "findDuplicateImages (uniform_env\<lparr>kdtree_knn := \<lambda>i. knn_spec\<rparr>)
     (Paths [''c.png'', ''b.png'', ''a.png'']) ?opts =
     Some (Inr [[\<lparr>path = ''a.png'', width = 10, height = 10\<rparr>,
                 \<lparr>path = ''b.png'', width = 10, height = 10\<rparr>]])"
    by code_simp
  note inst = permuted_input_same_paths_and_hashes[OF m, where E = uniform_env
      and K = "\<lambda>i. knn_spec" and K' = "\<lambda>i. knn_spec_desc" and n = 4
      and ps = "[''a.png'', ''b.png'', ''c.png'']" and opts = ?opts]
  from inst m p h r show ?thesis by simp
qed

text \<open>
  Claim C7 as stated fails for the same three pictures when at most two may stand in a
  group: the three positions are at the same distance, one run is answered in the
  order 0, 1, 2 and groups \<open>a.png\<close> with \<open>b.png\<close>, the other is answered in the order
  2, 1, 0 and groups \<open>b.png\<close> with \<open>c.png\<close>. The two environments differ in nothing but
  the order of these answers.
\<close>

theorem tie_order_changes_result_counterexample:
  "knn_spec [[165, 165], [165, 165], [165, 165]] [165, 165] 3 5 = Some [0, 1, 2] \<and>
   knn_spec_desc [[165, 165], [165, 165], [165, 165]] [165, 165] 3 5 = Some [2, 1, 0] \<and>
   findDuplicateImages (uniform_env\<lparr>kdtree_knn := \<lambda>i. knn_spec\<rparr>)
     (Paths [''a.png'', ''b.png'', ''c.png''])
     \<lparr>hashSize = 4, maxDuplicates = 2, maxDistance = 5\<rparr> =
     Some (Inr [[\<lparr>path = ''a.png'', width = 10, height = 10\<rparr>,
                 \<lparr>path = ''b.png'', width = 10, height = 10\<rparr>]]) \<and>
   findDuplicateImages (uniform_env\<lparr>kdtree_knn := \<lambda>i. knn_spec_desc\<rparr>)
     (Paths [''c.png'', ''b.png'', ''a.png''])
     \<lparr>hashSize = 4, maxDuplicates = 2, maxDistance = 5\<rparr> =
     Some (Inr [[\<lparr>path = ''b.png'', width = 10, height = 10\<rparr>,
                 \<lparr>path = ''c.png'', width = 10, height = 10\<rparr>]]) \<and>
   findDuplicateImages (uniform_env\<lparr>kdtree_knn := \<lambda>i. knn_spec\<rparr>)
     (Paths [''a.png'', ''b.png'', ''c.png''])
     \<lparr>hashSize = 4, maxDuplicates = 2, maxDistance = 5\<rparr> \<noteq>
   findDuplicateImages (uniform_env\<lparr>kdtree_knn := \<lambda>i. knn_spec_desc\<rparr>)
     (Paths [''c.png'', ''b.png'', ''a.png''])
     \<lparr>hashSize = 4, maxDuplicates = 2, maxDistance = 5\<rparr>"
  by code_simp

lemma filesWithMetadata_loop_error:
  "filesWithMetadata_loop E files acc = Inl e \<Longrightarrow>
   \<exists>f. e = MetadataError f \<and> Some f \<in> set files \<and> pathExists E f \<and> sharp_metadata E f = None"
proof (induction files arbitrary: acc)
  case Nil
  then show ?case by simp
next
  case (Cons x files)
  show ?case
  proof (cases x)
    case None
    with Cons.prems have "filesWithMetadata_loop E files acc = Inl e" by simp
    from Cons.IH[OF this] show ?thesis by auto
  next
    case (Some fl)
    show ?thesis
    proof (cases "pathExists E fl")
      case False
      with Some Cons.prems have "filesWithMetadata_loop E files acc = Inl e" by simp
      from Cons.IH[OF this] show ?thesis by auto
    next
      case True
      show ?thesis
      proof (cases "sharp_metadata E fl")
        case None
        with True Some Cons.prems show ?thesis by auto
      next
        case (Some wh)
        obtain w h where wh: "wh = (w, h)" by (cases wh)
        from Cons.prems \<open>x = Some fl\<close> True Some wh
        obtain acc' where "filesWithMetadata_loop E files acc' = Inl e" by auto
        from Cons.IH[OF this] show ?thesis by auto
      qed
    qed
  qed
qed

lemma filesWithMetadata_loop_fails:
  "Some f \<in> set files \<Longrightarrow> pathExists E f \<Longrightarrow> sharp_metadata E f = None \<Longrightarrow>
   \<exists>e. filesWithMetadata_loop E files acc = Inl e"
proof (induction files arbitrary: acc)
  case Nil
  then show ?case by simp
next
  case (Cons x files)
  show ?case
  proof (cases x)
    case None
    with Cons.prems have "Some f \<in> set files" by simp
    from Cons.IH[OF this Cons.prems(2,3)] None show ?thesis by simp
  next
    case (Some fl)
    show ?thesis
    proof (cases "pathExists E fl \<and> sharp_metadata E fl = None")
      case True
      with Some show ?thesis by simp
    next
      case False
      with Cons.prems Some have "Some f \<in> set files" by auto
      from Cons.IH[OF this Cons.prems(2,3)] Some show ?thesis
        by (auto split: option.splits)
    qed
  qed
qed

lemma duplicatesWithMetadata_loop_fails:
  assumes "g \<in> set groups" "Some f \<in> set g" "pathExists E f" "sharp_metadata E f = None"
  shows "\<exists>f'. duplicatesWithMetadata_loop E groups acc = Inl (MetadataError f') \<and>
              pathExists E f' \<and> sharp_metadata E f' = None"
  using assms(1)
proof (induction groups arbitrary: acc)
  case Nil
  then show ?case by simp
next
  case (Cons files rest)
  show ?case
  proof (cases "filesWithMetadata_loop E files []")
    case (Inl e)
    from filesWithMetadata_loop_error[OF Inl] obtain f' where
      "e = MetadataError f'" "pathExists E f'" "sharp_metadata E f' = None" by blast
    then show ?thesis using Inl by simp
  next
    case (Inr fwm)
    have "g \<noteq> files"
      using filesWithMetadata_loop_fails[OF assms(2-4), of "[]"] Inr by auto
    with Cons.prems have "g \<in> set rest" by simp
    from Cons.IH[OF this] show ?thesis using Inr by (simp add: Let_def)
  qed
qed

lemma filter_excluded_same_paths:
  "concat (map (item_paths E) (filter (\<lambda>p. \<not> excluded E p) items)) =
   concat (map (item_paths E) items)"
  by (induction items) (simp_all add: item_paths_excluded)

text \<open>
  Claim C6. When a path of some group passes the existence check and its metadata
  cannot be read, the call fails with the metadata error of such a path. Paths of the
  source array that do not exist or are files that are no images are left out: the call
  gives what it gives without them.
\<close>

theorem metadata_failure_is_fatal:
  "(imageFilePaths_of E src = Inr ps \<and>
    hashList_of E (hashSize opts) ps = Some (Inr hs) \<and>
    g \<in> set (duplicates_of E (maxDuplicates opts) (maxDistance opts) ps hs) \<and>
    Some f \<in> set g \<and> pathExists E f \<and> sharp_metadata E f = None \<longrightarrow>
    (\<exists>f'. findDuplicateImages E src opts = Some (Inl (MetadataError f')) \<and>
          pathExists E f' \<and> sharp_metadata E f' = None)) \<and>
   findDuplicateImages E (Paths items) opts =
     findDuplicateImages E (Paths (filter (\<lambda>p. \<not> excluded E p) items)) opts"
proof (intro conjI impI)
  assume a: "imageFilePaths_of E src = Inr ps \<and>
    hashList_of E (hashSize opts) ps = Some (Inr hs) \<and>
    g \<in> set (duplicates_of E (maxDuplicates opts) (maxDistance opts) ps hs) \<and>
    Some f \<in> set g \<and> pathExists E f \<and> sharp_metadata E f = None"
  then have run: "findDuplicateImages E src opts =
      Some (duplicatesWithMetadata_loop E
              (duplicates_of E (maxDuplicates opts) (maxDistance opts) ps hs) [])"
    by (simp add: findDuplicateImages_def)
  from a duplicatesWithMetadata_loop_fails[of g _ f E "[]"]
  obtain f' where "duplicatesWithMetadata_loop E
      (duplicates_of E (maxDuplicates opts) (maxDistance opts) ps hs) [] = Inl (MetadataError f')"
    "pathExists E f'" "sharp_metadata E f' = None" by blast
  with run show "\<exists>f'. findDuplicateImages E src opts = Some (Inl (MetadataError f')) \<and>
          pathExists E f' \<and> sharp_metadata E f' = None" by auto
next
  have "imageFilePaths_of E (Paths items) =
        imageFilePaths_of E (Paths (filter (\<lambda>p. \<not> excluded E p) items))"
    by (simp only: imageFilePaths_of_Paths filter_excluded_same_paths)
  then show "findDuplicateImages E (Paths items) opts =
     findDuplicateImages E (Paths (filter (\<lambda>p. \<not> excluded E p) items)) opts"
    by (simp add: findDuplicateImages_def)
qed

text \<open>
  The example directory with the metadata of \<open>b.png\<close> unreadable: \<open>a.png\<close> and \<open>b.png\<close>
  are grouped and the call fails. With readable metadata, a missing path and the text
  file in the source array change nothing.
\<close>

theorem metadata_failure_is_fatal_witness:
  "imageFilePaths_of broken_metadata_env (Directory ''dir'') =
     Inr [''dir/a.png'', ''dir/b.png'', ''dir/c.png''] \<and>
   hashList_of broken_metadata_env 4 [''dir/a.png'', ''dir/b.png'', ''dir/c.png''] =
     Some (Inr [[165, 165], [165, 165], [0, 0]]) \<and>
   duplicates_of broken_metadata_env 100 5 [''dir/a.png'', ''dir/b.png'', ''dir/c.png'']
     [[165, 165], [165, 165], [0, 0]] = [[Some ''dir/a.png'', Some ''dir/b.png'']] \<and>
   pathExists broken_metadata_env ''dir/b.png'' \<and>
   sharp_metadata broken_metadata_env ''dir/b.png'' = None \<and>
   findDuplicateImages broken_metadata_env (Directory ''dir'')
     \<lparr>hashSize = 4, maxDuplicates = 100, maxDistance = 5\<rparr> =
     Some (Inl (MetadataError ''dir/b.png'')) \<and>
   filter (\<lambda>p. \<not> excluded example_env p) [''missing.png'', ''dir'', ''dir/notes.txt''] = [''dir''] \<and>
   findDuplicateImages example_env (Paths [''missing.png'', ''dir'', ''dir/notes.txt''])
     \<lparr>hashSize = 4, maxDuplicates = 100, maxDistance = 5\<rparr> =
   findDuplicateImages example_env (Paths [''dir''])
     \<lparr>hashSize = 4, maxDuplicates = 100, maxDistance = 5\<rparr>"
proof -
  let ?opts = "\<lparr>hashSize = 4, maxDuplicates = 100, maxDistance = 5\<rparr>"
  let ?ps = "[''dir/a.png'', ''dir/b.png'', ''dir/c.png'']"
  let ?hs = "[[165, 165], [165, 165], [0 :: nat, 0]]"
  have h1: "imageFilePaths_of broken_metadata_env (Directory ''dir'') = Inr ?ps"
    by code_simp
  have h2: "hashList_of broken_metadata_env 4 ?ps = Some (Inr ?hs)"
    by code_simp
  have h3: "duplicates_of broken_metadata_env 100 5 ?ps ?hs = [[Some ''dir/a.png'', Some ''dir/b.png'']]"
    by code_simp
  have h4: "pathExists broken_metadata_env ''dir/b.png''"
    by code_simp
  have h5: "sharp_metadata broken_metadata_env ''dir/b.png'' = None"
    by code_simp
  have run: "findDuplicateImages broken_metadata_env (Directory ''dir'') ?opts =
               Some (Inl (MetadataError ''dir/b.png''))"
    by code_simp
  have flt: "filter (\<lambda>p. \<not> excluded example_env p) [''missing.png'', ''dir'', ''dir/notes.txt''] =
               [''dir'']"
    by code_simp
  have hyp: "imageFilePaths_of broken_metadata_env (Directory ''dir'') = Inr ?ps \<and>
    hashList_of broken_metadata_env (hashSize ?opts) ?ps = Some (Inr ?hs) \<and>
    [Some ''dir/a.png'', Some ''dir/b.png''] \<in>
      set (duplicates_of broken_metadata_env (maxDuplicates ?opts) (maxDistance ?opts) ?ps ?hs) \<and>
    Some ''dir/b.png'' \<in> set [Some ''dir/a.png'', Some ''dir/b.png''] \<and>
    pathExists broken_metadata_env ''dir/b.png'' \<and>
    sharp_metadata broken_metadata_env ''dir/b.png'' = None"
    using h1 h2 h3 h4 h5 by simp
  note inst = metadata_failure_is_fatal[where E = broken_metadata_env and src = "Directory ''dir''"
      and ps = ?ps and opts = ?opts and hs = ?hs and g = "[Some ''dir/a.png'', Some ''dir/b.png'']"
      and f = "''dir/b.png''"]
  from inst hyp have "\<exists>f'. findDuplicateImages broken_metadata_env (Directory ''dir'') ?opts =
      Some (Inl (MetadataError f'))" by blast
  moreover have "findDuplicateImages example_env (Paths [''missing.png'', ''dir'', ''dir/notes.txt'']) ?opts =
    findDuplicateImages example_env
      (Paths (filter (\<lambda>p. \<not> excluded example_env p) [''missing.png'', ''dir'', ''dir/notes.txt''])) ?opts"
    using metadata_failure_is_fatal[where E = example_env and opts = ?opts
        and items = "[''missing.png'', ''dir'', ''dir/notes.txt'']"] by blast
  ultimately show ?thesis
    using h1 h2 h3 h4 h5 run flt by simp
qed

subsection \<open>Groups share no path\<close>

lemma present_simps [simp]:
  "present [] = []"
  "present (None # g) = present g"
  "present (Some f # g) = f # present g"
  by (simp_all add: present_def)

lemma set_present: "set (present g) = {f. Some f \<in> set g}"
  by (induction g) (auto simp: present_def split: option.splits)

lemma present_at_index:
  "present (map (at_index ps) js) = map (nth ps) (filter (\<lambda>j. j < length ps) js)"
  by (induction js) (simp_all add: at_index_def)

lemma group_step_inv:
  assumes knn: "\<forall>r points q k d idxs. kdtree_knn E r points q k d = Some idxs \<longrightarrow> distinct idxs"
      and ps: "distinct ps"
      and inv: "group_inv ps st"
  shows "group_inv ps (group_step E maxDup maxDist ps hashList i st)"
proof -
  obtain S dups where st: "st = (S, dups)" by (cases st)
  show ?thesis
  proof (cases "i \<in> S")
    case True
    then show ?thesis using inv by (simp add: group_step_def st)
  next
    case False
    show ?thesis
    proof (cases "kdtree_knn E i hashList (hashList ! i) (maxDup + 1) maxDist")
      case None
      then show ?thesis using inv False by (simp add: group_step_def st)
    next
      case (Some idxs)
      let ?flt = "filter (\<lambda>idx. idx \<notin> S) idxs"
      let ?lim = "take maxDup ?flt"
      let ?new = "map (nth ps) (filter (\<lambda>j. j < length ps) ?lim)"
      show ?thesis
      proof (cases "length idxs > 1 \<and> length ?flt > 1")
        case False
        then show ?thesis using inv Some \<open>i \<notin> S\<close> by (auto simp: group_step_def st)
      next
        case True
        have step: "group_step E maxDup maxDist ps hashList i st =
                      (S \<union> set ?lim, dups @ [map (at_index ps) ?lim])"
          using True Some \<open>i \<notin> S\<close> by (simp add: group_step_def st Let_def)
        have d_idxs: "distinct idxs" using knn Some by blast
        then have d_lim: "distinct (filter (\<lambda>j. j < length ps) ?lim)" by simp
        have notS: "\<forall>j\<in>set ?lim. j \<notin> S" by (auto dest: in_set_takeD)
        have d_new: "distinct ?new"
          using d_lim ps by (auto simp: distinct_map inj_on_def nth_eq_iff_index_eq)
        from inv have d_old: "distinct (concat (map present dups))"
          and at_old: "\<forall>f\<in>set (concat (map present dups)). \<exists>i\<in>S. i < length ps \<and> ps ! i = f"
          by (simp_all add: group_inv_def st)
        have disj: "set (concat (map present dups)) \<inter> set ?new = {}"
        proof (rule ccontr)
          assume "set (concat (map present dups)) \<inter> set ?new \<noteq> {}"
          then obtain f where f1: "f \<in> set (concat (map present dups))" and f2: "f \<in> set ?new"
            by blast
          from at_old f1 obtain a where a: "a \<in> S" "a < length ps" "ps ! a = f" by blast
          from f2 obtain j where j: "j \<in> set ?lim" "j < length ps" "ps ! j = f" by auto
          have "a = j"
            using nth_eq_iff_index_eq[OF ps a(2) j(2)] a(3) j(3) by simp
          with a(1) j(1) notS show False by blast
        qed
        have all: "concat (map present (dups @ [map (at_index ps) ?lim])) =
                     concat (map present dups) @ ?new"
          by (simp add: present_at_index)
        have "distinct (concat (map present dups) @ ?new)"
          using d_old d_new disj by simp
        moreover have "\<forall>f\<in>set (concat (map present dups) @ ?new).
                         \<exists>i\<in>S \<union> set ?lim. i < length ps \<and> ps ! i = f"
        proof
          fix f assume "f \<in> set (concat (map present dups) @ ?new)"
          then consider "f \<in> set (concat (map present dups))" | "f \<in> set ?new" by auto
          then show "\<exists>i\<in>S \<union> set ?lim. i < length ps \<and> ps ! i = f"
          proof cases
            case 1
            with at_old show ?thesis by blast
          next
            case 2
            then obtain j where "j \<in> set ?lim" "j < length ps" "ps ! j = f" by auto
            then show ?thesis by blast
          qed
        qed
        ultimately show ?thesis
          unfolding step group_inv_def fst_conv snd_conv all by blast
      qed
    qed
  qed
qed

lemma group_loop_inv:
  "\<forall>r points q k d idxs. kdtree_knn E r points q k d = Some idxs \<longrightarrow> distinct idxs \<Longrightarrow>
   distinct ps \<Longrightarrow> group_inv ps st \<Longrightarrow>
   group_inv ps (group_loop E maxDup maxDist ps hashList i st)"
proof (induction E maxDup maxDist ps hashList i st rule: group_loop.induct)
  case (1 E maxDup maxDist imageFilePaths hashList i st)
  show ?case
  proof (cases "i < length hashList")
    case True
    have "group_inv imageFilePaths (group_step E maxDup maxDist imageFilePaths hashList i st)"
      by (rule group_step_inv[OF "1.prems"(1,2,3)])
    from "1.IH"[OF True "1.prems"(1,2) this] show ?thesis
      by (subst group_loop.simps) (simp add: True)
  next
    case False
    then show ?thesis using "1.prems"(3) by (subst group_loop.simps) simp
  qed
qed


lemma mset_insert_by: "mset (insert_by cmp x ys) = add_mset x (mset ys)"
  by (induction ys) simp_all

lemma mset_Array_sort: "mset (Array_sort cmp xs) = mset xs"
  by (induction xs) (simp_all add: Array_sort_def mset_insert_by)

lemma filesWithMetadata_loop_paths:
  "filesWithMetadata_loop E files acc = Inr res \<Longrightarrow>
   map path res = map path acc @ filter (pathExists E) (present files)"
proof (induction files arbitrary: acc)
  case Nil
  then show ?case by simp
next
  case (Cons x files)
  show ?case
  proof (cases x)
    case None
    with Cons.prems have "filesWithMetadata_loop E files acc = Inr res" by simp
    from Cons.IH[OF this] None show ?thesis by simp
  next
    case (Some fl)
    show ?thesis
    proof (cases "pathExists E fl")
      case False
      with Some Cons.prems have "filesWithMetadata_loop E files acc = Inr res" by simp
      from Cons.IH[OF this] Some False show ?thesis by simp
    next
      case True
      from Cons.prems Some True obtain w h where
        "filesWithMetadata_loop E files
           (acc @ [\<lparr>path = fl, width = (case w of None \<Rightarrow> 0 | Some v \<Rightarrow> v),
                    height = (case h of None \<Rightarrow> 0 | Some v \<Rightarrow> v)\<rparr>]) = Inr res"
        by (auto split: option.splits)
      from Cons.IH[OF this] Some True show ?thesis by simp
    qed
  qed
qed

lemma duplicatesWithMetadata_loop_paths:
  "duplicatesWithMetadata_loop E dups acc = Inr groups \<Longrightarrow>
   mset (map path (concat groups)) =
     mset (map path (concat acc)) + mset (filter (pathExists E) (concat (map present dups)))"
proof (induction dups arbitrary: acc)
  case Nil
  then show ?case by simp
next
  case (Cons files rest)
  from Cons.prems obtain fwm where fwm: "filesWithMetadata_loop E files [] = Inr fwm"
    by (auto split: sum.splits)
  let ?sorted = "Array_sort (compareImages E) fwm"
  have p: "mset (map path ?sorted) = mset (filter (pathExists E) (present files))"
    using filesWithMetadata_loop_paths[OF fwm] mset_Array_sort[of "compareImages E" fwm]
    by (metis append_Nil list.simps(8) mset_map)
  show ?case
  proof (cases "length ?sorted > 0")
    case True
    with Cons.prems fwm have "duplicatesWithMetadata_loop E rest (acc @ [?sorted]) = Inr groups"
      by (simp add: Let_def)
    from Cons.IH[OF this] p show ?thesis by simp
  next
    case False
    then have e: "?sorted = []" by simp
    with Cons.prems fwm have "duplicatesWithMetadata_loop E rest acc = Inr groups"
      by (simp add: Let_def)
    from Cons.IH[OF this] p e show ?thesis by simp
  qed
qed

lemma knn_spec_distinct: "knn_spec points q k d = Some idxs \<Longrightarrow> distinct idxs"
  by (auto simp: knn_spec_def)

text \<open>
  What the grouping loop does guarantee: when the collected list of image paths holds no
  path twice and no query of the k-d tree returns a position twice, no path stands in
  two groups of the result nor twice in one group.
\<close>

theorem groups_share_no_path:
  assumes "\<forall>r points q k d idxs. kdtree_knn E r points q k d = Some idxs \<longrightarrow> distinct idxs"
      and "imageFilePaths_of E src = Inr ps" and "distinct ps"
      and "findDuplicateImages E src opts = Some (Inr groups)"
  shows "distinct (map path (concat groups))"
proof -
  from assms(2,4) obtain hs where
    run: "duplicatesWithMetadata_loop E
            (duplicates_of E (maxDuplicates opts) (maxDistance opts) ps hs) [] = Inr groups"
    by (auto simp: findDuplicateImages_closed split: sum.splits)
  let ?dups = "duplicates_of E (maxDuplicates opts) (maxDistance opts) ps hs"
  have "group_inv ps ({}, [])" by (simp add: group_inv_def)
  then have "group_inv ps (group_loop E (maxDuplicates opts) (maxDistance opts) ps hs 0 ({}, []))"
    by (rule group_loop_inv[OF assms(1,3)])
  then have "distinct (concat (map present ?dups))"
    by (simp add: group_inv_def duplicates_of_def)
  then have "distinct (filter (pathExists E) (concat (map present ?dups)))"
    by simp
  moreover have "mset (map path (concat groups)) =
                   mset (filter (pathExists E) (concat (map present ?dups)))"
    using duplicatesWithMetadata_loop_paths[OF run] by simp
  ultimately show ?thesis
    by (metis mset_eq_imp_distinct_iff)
qed

text \<open>The example directory: one group of the two striped pictures.\<close>

theorem groups_share_no_path_witness:
  "imageFilePaths_of example_env (Directory ''dir'') =
     Inr [''dir/a.png'', ''dir/b.png'', ''dir/c.png''] \<and>
   distinct [''dir/a.png'', ''dir/b.png'', ''dir/c.png''] \<and>
   findDuplicateImages example_env (Directory ''dir'')
     \<lparr>hashSize = 4, maxDuplicates = 100, maxDistance = 5\<rparr> =
     Some (Inr [[\<lparr>path = ''dir/a.png'', width = 100, height = 100\<rparr>,
                 \<lparr>path = ''dir/b.png'', width = 98, height = 99\<rparr>]]) \<and>
   distinct (map path (concat [[\<lparr>path = ''dir/a.png'', width = 100, height = 100\<rparr>,
                 \<lparr>path = ''dir/b.png'', width = 98, height = 99\<rparr>]]))"
proof -
  have k: "\<forall>r points q k d idxs. kdtree_knn example_env r points q k d = Some idxs \<longrightarrow> distinct idxs"
    by (simp add: example_env_def knn_spec_distinct)
  have p: "imageFilePaths_of example_env (Directory ''dir'') =
             Inr [''dir/a.png'', ''dir/b.png'', ''dir/c.png'']"
    by code_simp
  have d: "distinct [''dir/a.png'', ''dir/b.png'', ''dir/c.png'']"
    by simp
  have r: "findDuplicateImages example_env (Directory ''dir'')
     \<lparr>hashSize = 4, maxDuplicates = 100, maxDistance = 5\<rparr> =
     Some (Inr [[\<lparr>path = ''dir/a.png'', width = 100, height = 100\<rparr>,
                 \<lparr>path = ''dir/b.png'', width = 98, height = 99\<rparr>]])"
    by code_simp
  from groups_share_no_path[OF k p d r] p d r show ?thesis by blast
qed

text \<open>
  Claim C1 at a source array that names a picture both by its directory and by its own
  path: the path is collected twice, both positions have the same fingerprint, and the
  one group of the result holds the path twice. The claimed set holds positions, and
  the collected paths are never made unique.
\<close>

theorem same_path_twice_in_one_group:
  "findDuplicateImages example_env (Paths [''dir'', ''dir/a.png''])
     \<lparr>hashSize = 4, maxDuplicates = 100, maxDistance = 5\<rparr> =
     Some (Inr [[\<lparr>path = ''dir/a.png'', width = 100, height = 100\<rparr>,
                 \<lparr>path = ''dir/a.png'', width = 100, height = 100\<rparr>,
                 \<lparr>path = ''dir/b.png'', width = 98, height = 99\<rparr>]]) \<and>
   \<not> distinct (map path (concat [[\<lparr>path = ''dir/a.png'', width = 100, height = 100\<rparr>,
                 \<lparr>path = ''dir/a.png'', width = 100, height = 100\<rparr>,
                 \<lparr>path = ''dir/b.png'', width = 98, height = 99\<rparr>]]))"
  by code_simp

subsection \<open>Order within a group\<close>

lemma set_insert_by: "set (insert_by cmp x ys) = insert x (set ys)"
  by (induction ys) auto

lemma sorted_insert_by:
  assumes total: "\<forall>a b. cmp a b \<le> 0 \<or> cmp b a \<le> 0"
      and trans: "\<forall>a b c. cmp a b \<le> 0 \<and> cmp b c \<le> 0 \<longrightarrow> cmp a c \<le> 0"
  shows "sorted_wrt (\<lambda>a b. cmp a b \<le> 0) ys \<Longrightarrow>
         sorted_wrt (\<lambda>a b. cmp a b \<le> 0) (insert_by cmp x ys)"
proof (induction ys)
  case Nil
  then show ?case by simp
next
  case (Cons y ys)
  show ?case
  proof (cases "cmp x y \<le> 0")
    case True
    have "\<forall>z\<in>set ys. cmp x z \<le> 0"
      using True Cons.prems trans by (metis sorted_wrt.simps(2))
    with True Cons.prems show ?thesis by simp
  next
    case False
    with total have "cmp y x \<le> 0" by blast
    with False Cons show ?thesis by (simp add: set_insert_by)
  qed
qed

lemma sorted_Array_sort:
  assumes "\<forall>a b. cmp a b \<le> 0 \<or> cmp b a \<le> 0"
      and "\<forall>a b c. cmp a b \<le> 0 \<and> cmp b c \<le> 0 \<longrightarrow> cmp a c \<le> 0"
  shows "sorted_wrt (\<lambda>a b. cmp a b \<le> 0) (Array_sort cmp xs)"
  by (induction xs) (simp_all add: Array_sort_def sorted_insert_by[OF assms])

lemma comparator_sign:
  fixes x y :: nat
  shows "(if int x - int y \<noteq> 0 then int x - int y else l) \<le> 0 \<longleftrightarrow>
           x < y \<or> (y = x \<and> l \<le> 0)"
  by auto

lemma compareImages_le:
  "compareImages E a b \<le> 0 \<longleftrightarrow>
     width b * height b < width a * height a \<or>
     (width a * height a = width b * height b \<and>
      localeCompare E (path_basename E (path a)) (path_basename E (path b)) \<le> 0)"
  unfolding compareImages_def Let_def
  by (rule comparator_sign[of "width b * height b" "width a * height a"])

lemma compareImages_total:
  assumes "\<forall>a b. localeCompare E a b \<le> 0 \<or> localeCompare E b a \<le> 0"
  shows "\<forall>a b. compareImages E a b \<le> 0 \<or> compareImages E b a \<le> 0"
  using assms unfolding compareImages_le by (metis linorder_neqE_nat)

lemma compareImages_trans:
  assumes "\<forall>a b c. localeCompare E a b \<le> 0 \<and> localeCompare E b c \<le> 0 \<longrightarrow> localeCompare E a c \<le> 0"
  shows "\<forall>a b c. compareImages E a b \<le> 0 \<and> compareImages E b c \<le> 0 \<longrightarrow> compareImages E a c \<le> 0"
proof (intro allI impI)
  fix a b c
  assume h: "compareImages E a b \<le> 0 \<and> compareImages E b c \<le> 0"
  let ?A = "\<lambda>x. width x * height x"
  let ?L = "\<lambda>x y. localeCompare E (path_basename E (path x)) (path_basename E (path y)) \<le> 0"
  from h have ab: "?A b < ?A a \<or> (?A a = ?A b \<and> ?L a b)"
    and bc: "?A c < ?A b \<or> (?A b = ?A c \<and> ?L b c)"
    by (simp_all add: compareImages_le)
  have "?A c < ?A a \<or> (?A a = ?A c \<and> ?L a c)"
  proof (cases "?A a = ?A b \<and> ?A b = ?A c")
    case True
    with ab bc have "?L a b" "?L b c" by auto
    with assms have "?L a c" by blast
    with True show ?thesis by simp
  next
    case False
    with ab bc have "?A c < ?A a" by auto
    then show ?thesis by simp
  qed
  then show "compareImages E a c \<le> 0" by (simp add: compareImages_le)
qed

lemma duplicatesWithMetadata_loop_sorted:
  "duplicatesWithMetadata_loop E dups acc = Inr groups \<Longrightarrow> g \<in> set groups \<Longrightarrow>
   g \<in> set acc \<or> (\<exists>fwm. g = Array_sort (compareImages E) fwm)"
proof (induction dups arbitrary: acc)
  case Nil
  then show ?case by simp
next
  case (Cons files rest)
  from Cons.prems(1) obtain fwm where fwm: "filesWithMetadata_loop E files [] = Inr fwm"
    by (auto split: sum.splits)
  let ?sorted = "Array_sort (compareImages E) fwm"
  show ?case
  proof (cases "length ?sorted > 0")
    case True
    with Cons.prems(1) fwm have "duplicatesWithMetadata_loop E rest (acc @ [?sorted]) = Inr groups"
      by (simp add: Let_def)
    from Cons.IH[OF this Cons.prems(2)] show ?thesis by auto
  next
    case False
    with Cons.prems(1) fwm have "duplicatesWithMetadata_loop E rest acc = Inr groups"
      by (simp add: Let_def)
    from Cons.IH[OF this Cons.prems(2)] show ?thesis .
  qed
qed

text \<open>
  Claim C5, as amended. When \<open>localeCompare\<close> is a total and transitive comparison, in
  every group of the result the pixel count \<open>width * height\<close> does not increase from one
  member to any later one, and of two members with the same pixel count the earlier
  one does not compare greater than the later one under \<open>localeCompare\<close> of their base
  names.
\<close>

theorem groups_sorted_by_resolution:
  assumes "\<forall>a b. localeCompare E a b \<le> 0 \<or> localeCompare E b a \<le> 0"
      and "\<forall>a b c. localeCompare E a b \<le> 0 \<and> localeCompare E b c \<le> 0 \<longrightarrow> localeCompare E a c \<le> 0"
      and "findDuplicateImages E src opts = Some (Inr groups)"
      and "g \<in> set groups" and "i < j" and "j < length g"
  shows "width (g ! j) * height (g ! j) \<le> width (g ! i) * height (g ! i) \<and>
         (width (g ! i) * height (g ! i) = width (g ! j) * height (g ! j) \<longrightarrow>
          localeCompare E (path_basename E (path (g ! i))) (path_basename E (path (g ! j))) \<le> 0)"
proof -
  from assms(3) obtain dups where
    "duplicatesWithMetadata_loop E dups [] = Inr groups"
    by (auto simp: findDuplicateImages_closed split: sum.splits)
  from duplicatesWithMetadata_loop_sorted[OF this assms(4)]
  obtain fwm where g: "g = Array_sort (compareImages E) fwm" by auto
  have "sorted_wrt (\<lambda>a b. compareImages E a b \<le> 0) g"
    unfolding g
    by (rule sorted_Array_sort[OF compareImages_total[OF assms(1)] compareImages_trans[OF assms(2)]])
  then have "compareImages E (g ! i) (g ! j) \<le> 0"
    using assms(5,6) by (simp add: sorted_wrt_iff_nth_less)
  then show ?thesis
    by (auto simp: compareImages_le)
qed

lemma localeCompare_letters_le:
  "localeCompare_letters a b \<le> 0 \<longleftrightarrow>
     map toLowerASCII a < map toLowerASCII b \<or>
     (map toLowerASCII a = map toLowerASCII b \<and> b \<le> a)"
  by (auto simp: localeCompare_letters_def Let_def)

lemma localeCompare_letters_total:
  "localeCompare_letters a b \<le> 0 \<or> localeCompare_letters b a \<le> 0"
  unfolding localeCompare_letters_le by (metis linorder_less_linear linorder_linear)

lemma localeCompare_letters_trans:
  "localeCompare_letters a b \<le> 0 \<and> localeCompare_letters b c \<le> 0 \<longrightarrow>
   localeCompare_letters a c \<le> 0"
  unfolding localeCompare_letters_le
  by (metis order.strict_trans order.trans)

text \<open>
  Two pictures of 10 by 10 pixels named \<open>a.png\<close> and \<open>B.png\<close> in one group.
\<close>

theorem groups_sorted_by_resolution_witness:
  "findDuplicateImages uniform_env (Paths [''B.png'', ''a.png''])
     \<lparr>hashSize = 4, maxDuplicates = 100, maxDistance = 5\<rparr> =
     Some (Inr [[\<lparr>path = ''a.png'', width = 10, height = 10\<rparr>,
                 \<lparr>path = ''B.png'', width = 10, height = 10\<rparr>]]) \<and>
   localeCompare uniform_env (path_basename uniform_env ''a.png'')
     (path_basename uniform_env ''B.png'') \<le> 0"
proof -
  let ?g = "[\<lparr>path = ''a.png'', width = 10, height = 10\<rparr>,
             \<lparr>path = ''B.png'', width = 10, height = 10\<rparr>]"
  have sel: "localeCompare uniform_env = localeCompare_letters"
    by (simp add: uniform_env_def)
  have t: "\<forall>a b. localeCompare uniform_env a b \<le> 0 \<or> localeCompare uniform_env b a \<le> 0"
    unfolding sel using localeCompare_letters_total by blast
  have tr: "\<forall>a b c. localeCompare uniform_env a b \<le> 0 \<and> localeCompare uniform_env b c \<le> 0 \<longrightarrow>
              localeCompare uniform_env a c \<le> 0"
    unfolding sel using localeCompare_letters_trans by blast
  have r: "findDuplicateImages uniform_env (Paths [''B.png'', ''a.png''])
     \<lparr>hashSize = 4, maxDuplicates = 100, maxDistance = 5\<rparr> = Some (Inr [?g])"
    by code_simp
  have m: "?g \<in> set [?g]" by simp
  have l: "(0::nat) < 1" "1 < length ?g" by simp_all
  from groups_sorted_by_resolution[OF t tr r m l]
  have "localeCompare uniform_env (path_basename uniform_env ''a.png'')
     (path_basename uniform_env ''B.png'') \<le> 0" by simp
  with r show ?thesis by blast
qed

text \<open>
  Claim C5 as stated fails for the same run: both pictures have the same pixel count,
  \<open>a.png\<close> stands before \<open>B.png\<close>, and in the order of the character codes \<open>B.png\<close> is
  the smaller base name.
\<close>

theorem locale_order_is_not_ordinal_counterexample:
  "findDuplicateImages uniform_env (Paths [''B.png'', ''a.png''])
     \<lparr>hashSize = 4, maxDuplicates = 100, maxDistance = 5\<rparr> =
     Some (Inr [[\<lparr>path = ''a.png'', width = 10, height = 10\<rparr>,
                 \<lparr>path = ''B.png'', width = 10, height = 10\<rparr>]]) \<and>
   path_basename uniform_env ''B.png'' < path_basename uniform_env ''a.png''"
  by code_simp

subsection \<open>Sizes of groups\<close>

text \<open>
  The sizes the code does guarantee: a group of \<open>duplicates\<close> has at most \<open>maxDuplicates\<close>
  entries and at least two when \<open>maxDuplicates\<close> is at least 2; a group of the result is
  not empty and no longer than the group of \<open>duplicates\<close> it comes from.
\<close>

lemma group_step_size:
  assumes "\<forall>g\<in>set (snd st). length g \<le> k \<and> min k 2 \<le> length g"
  shows "\<forall>g\<in>set (snd (group_step E k d ps hs i st)). length g \<le> k \<and> min k 2 \<le> length g"
proof -
  obtain S dups where st: "st = (S, dups)" by (cases st)
  show ?thesis
    using assms unfolding group_step_def st Let_def
    by (auto split: option.splits)
qed

lemma group_loop_size:
  "\<forall>g\<in>set (snd st). length g \<le> k \<and> min k 2 \<le> length g \<Longrightarrow>
   \<forall>g\<in>set (snd (group_loop E k d ps hs i st)). length g \<le> k \<and> min k 2 \<le> length g"
proof (induction E k d ps hs i st rule: group_loop.induct)
  case (1 E maxDup maxDist imageFilePaths hashList i st)
  show ?case
  proof (cases "i < length hashList")
    case True
    from "1.IH"[OF True group_step_size[OF "1.prems"]] show ?thesis
      by (subst group_loop.simps) (simp add: True)
  next
    case False
    then show ?thesis using "1.prems" by (subst group_loop.simps) simp
  qed
qed

lemma duplicates_group_size:
  "g \<in> set (duplicates_of E k d ps hs) \<Longrightarrow> length g \<le> k \<and> min k 2 \<le> length g"
  using group_loop_size[of "({}, [])" k E d ps hs 0] by (simp add: duplicates_of_def)

lemma length_present: "length (present g) \<le> length g"
  by (induction g) (auto simp: present_def split: option.splits)

lemma duplicatesWithMetadata_loop_size:
  "duplicatesWithMetadata_loop E dups acc = Inr groups \<Longrightarrow> G \<in> set groups \<Longrightarrow>
   G \<in> set acc \<or> (\<exists>g\<in>set dups. 0 < length G \<and> length G \<le> length g)"
proof (induction dups arbitrary: acc)
  case Nil
  then show ?case by simp
next
  case (Cons files rest)
  from Cons.prems(1) obtain fwm where fwm: "filesWithMetadata_loop E files [] = Inr fwm"
    by (auto split: sum.splits)
  let ?sorted = "Array_sort (compareImages E) fwm"
  have "length ?sorted = length fwm"
    using mset_Array_sort[of "compareImages E" fwm] by (metis size_mset)
  also have "\<dots> = length (map path fwm)" by simp
  also have "\<dots> = length (filter (pathExists E) (present files))"
    using filesWithMetadata_loop_paths[OF fwm] by simp
  also have "\<dots> \<le> length (present files)" by simp
  also have "\<dots> \<le> length files" by (rule length_present)
  finally have len: "length ?sorted \<le> length files" .
  show ?case
  proof (cases "length ?sorted > 0")
    case True
    with Cons.prems(1) fwm have "duplicatesWithMetadata_loop E rest (acc @ [?sorted]) = Inr groups"
      by (simp add: Let_def)
    from Cons.IH[OF this Cons.prems(2)] True len show ?thesis by auto
  next
    case False
    with Cons.prems(1) fwm have "duplicatesWithMetadata_loop E rest acc = Inr groups"
      by (simp add: Let_def)
    from Cons.IH[OF this Cons.prems(2)] show ?thesis by auto
  qed
qed

lemma output_group_size:
  assumes "findDuplicateImages E src opts = Some (Inr groups)" and "G \<in> set groups"
  shows "1 \<le> length G \<and> length G \<le> maxDuplicates opts"
proof -
  from assms(1) obtain ps hs where
    "duplicatesWithMetadata_loop E
       (duplicates_of E (maxDuplicates opts) (maxDistance opts) ps hs) [] = Inr groups"
    by (auto simp: findDuplicateImages_closed split: sum.splits)
  from duplicatesWithMetadata_loop_size[OF this assms(2)]
  obtain g where g: "g \<in> set (duplicates_of E (maxDuplicates opts) (maxDistance opts) ps hs)"
    "0 < length G" "length G \<le> length g" by auto
  from duplicates_group_size[OF g(1)] have "length g \<le> maxDuplicates opts" by simp
  with g(2,3) show ?thesis by (simp add: Suc_le_eq)
qed

text \<open>
  Claim C2 at \<open>maxDuplicates = 1\<close>: the query for the first striped picture returns both
  striped pictures, the check for more than one position passes, the cut to
  \<open>maxDuplicates\<close> positions leaves one, and the result is a group of a single image.
\<close>

theorem single_image_group_at_maxDuplicates_1:
  "findDuplicateImages example_env (Directory ''dir'')
     \<lparr>hashSize = 4, maxDuplicates = 1, maxDistance = 5\<rparr> =
     Some (Inr [[\<lparr>path = ''dir/a.png'', width = 100, height = 100\<rparr>]])"
  by code_simp

end
